theory Spec2Isabelle
  imports Main "HOL-Library.Word" "HOL-Library.Multiset" "HOL-Library.AList"
begin

unbundle bit_operations_syntax

section \<open>Machine types\<close>

text \<open>
  The development fixes a 64-bit platform: Go's \<open>int\<close>, \<open>int64\<close>, \<open>uint64\<close> and
  \<open>uintptr\<close> are 64-bit words (signed ones are read with \<open>sint\<close>), \<open>uint8\<close> is an
  8-bit word. Arithmetic on them wraps, as Go's does. Identifiers and string indices that
  the code computes from \<open>len(...)\<close> are natural numbers: a Go length is below \<open>2^63\<close>,
  so \<open>uint64(len(x)) + 1\<close> and \<open>int64(len(x)) - 1\<close> (on a non-empty table) never wrap.
\<close>

type_synonym go_int = "64 word"
type_synonym int64 = "64 word"
type_synonym uint64 = "64 word"
type_synonym uintptr = "64 word"
type_synonym uint8 = "8 word"

section \<open>Size bucketing\<close>

text \<open>
  \<open>nextPowerOfTwo\<close>: the loop \<open>for i := 0; i < 63; i++\<close> with the signed comparison
  \<open>1<<i >= input\<close> on \<open>int\<close>, returning \<open>uint8(i)\<close>, and 63 after the loop.
\<close>

function nextPowerOfTwo_loop :: "nat \<Rightarrow> go_int \<Rightarrow> uint8" where
  "nextPowerOfTwo_loop i input =
     (if i < 63
      then (if input \<le>s push_bit i 1 then of_nat i
            else nextPowerOfTwo_loop (i + 1) input)
      else 63)"
  by pat_completeness auto
termination
  by (relation "measure (\<lambda>(i, input). 63 - i)") auto

definition nextPowerOfTwo :: "go_int \<Rightarrow> uint8" where
  "nextPowerOfTwo input = nextPowerOfTwo_loop 0 input"

section \<open>The accumulator\<close>

text \<open>
  \<open>sampleKey\<close>: \<open>locations\<close> is the array \<open>[128]uintptr\<close>, kept as a list (the keys that
  \<open>recordSample\<close> makes have exactly 128 entries).
\<close>

record sampleKey =
  locations :: "uintptr list"
  sizeBucketPower :: uint8
  numLocations :: uint8

text \<open>
  The Go map \<open>map[sampleKey][2]int64\<close> is an association list with distinct keys, the
  value \<open>[2]int64\<close> a pair. The field \<open>samples\<close> of a profiler made by \<open>NewProfiler\<close> is
  the nil map, \<open>None\<close> here: reading it gives zero values, assigning to it panics.
\<close>

type_synonym sampleMap = "(sampleKey \<times> int64 \<times> int64) list"

record Rprof =
  samples :: "sampleMap option"
  startTime :: int64

definition NewProfiler :: Rprof where
  "NewProfiler = \<lparr>samples = None, startTime = 0\<rparr>"

text \<open>
  The two errors of the package are made with \<open>errors.New\<close>; \<open>Error\<close> gives their
  messages. A panic of the Go runtime is a \<open>fault\<close>.
\<close>

datatype error = AlreadyRunning | NotRunning

fun Error :: "error \<Rightarrow> string" where
  "Error AlreadyRunning = ''profiler already started''"
| "Error NotRunning = ''profiler not started''"

datatype fault = AssignmentToNilMap

text \<open>\<open>Start\<close>; \<open>now\<close> is what \<open>time.Now().UnixNano()\<close> returns.\<close>

definition Start :: "int64 \<Rightarrow> Rprof \<Rightarrow> error option \<times> Rprof" where
  "Start now p =
     (if startTime p \<noteq> 0 then (Some AlreadyRunning, p)
      else (None, p\<lparr>startTime := now, samples := Some []\<rparr>))"

text \<open>
  The key that \<open>recordSample\<close> makes. \<open>callers\<close> is the list of return addresses that
  \<open>runtime.Callers(3, locations[:])\<close> finds on the stack: it writes at most 128 of them
  into the zeroed array and returns how many it wrote.
\<close>

definition captureKey :: "go_int \<Rightarrow> uintptr list \<Rightarrow> sampleKey" where
  "captureKey sz callers =
     \<lparr>locations = take 128 callers @ replicate (128 - length callers) 0,
      sizeBucketPower = nextPowerOfTwo sz,
      numLocations = of_nat (min 128 (length callers))\<rparr>"

text \<open>The read \<open>samples[k]\<close> of a Go map: the zero value when the key is absent.\<close>

definition sampleAt :: "sampleMap \<Rightarrow> sampleKey \<Rightarrow> int64 \<times> int64" where
  "sampleAt m k = (case map_of m k of None \<Rightarrow> (0, 0) | Some v \<Rightarrow> v)"

text \<open>
  \<open>recordSample\<close>: the bucket is computed before the lock is taken; under the lock the
  call returns at once when the profiler is not started, and otherwise captures the
  stack, reads the entry, increments the two counters and writes the entry back.
\<close>

definition recordSample :: "go_int \<Rightarrow> uintptr list \<Rightarrow> Rprof \<Rightarrow> fault + Rprof" where
  "recordSample sz callers p =
     (if startTime p = 0 then Inr p
      else
        let k = captureKey sz callers in
        case samples p of
          None \<Rightarrow> Inl AssignmentToNilMap
        | Some m \<Rightarrow>
            let sample = sampleAt m k;
                sample = (fst sample + 1, snd sample);
                sample = (fst sample, snd sample + sz)
            in Inr (p\<lparr>samples := Some (AList.update k sample m)\<rparr>))"

text \<open>A run of \<open>recordSample\<close> calls, each given as (size, callers); a panic ends it.\<close>

fun recordSamples :: "(go_int \<times> uintptr list) list \<Rightarrow> Rprof \<Rightarrow> fault + Rprof" where
  "recordSamples [] p = Inr p"
| "recordSamples (e # es) p =
     (case recordSample (fst e) (snd e) p of
        Inl f \<Rightarrow> Inl f
      | Inr p' \<Rightarrow> recordSamples es p')"

section \<open>The profile\<close>

record proto_ValueType =
  Type :: nat
  Unit :: nat

record proto_Mapping =
  Mapping_Id :: nat
  MemoryStart :: uint64
  MemoryLimit :: uint64
  FileOffset :: uint64
  Filename :: nat
  BuildId :: nat

record proto_Location =
  Location_Id :: nat
  MappingIndex :: nat
  Address :: uint64

record proto_Label =
  Key :: nat
  Num :: int64

record proto_Sample =
  LocationIndex :: "nat list"
  Value :: "int64 list"
  Label :: "proto_Label list"

record proto_Profile =
  StringTable :: "string list"
  Mapping :: "proto_Mapping list"
  Location :: "proto_Location list"
  Sample :: "proto_Sample list"
  DurationNanos :: int64
  TimeNanos :: int64
  Period :: int64
  PeriodType :: proto_ValueType
  SampleType :: "proto_ValueType list"

text \<open>The \<open>profileBuilder\<close> holds the profile under construction and nothing else.\<close>

type_synonym profileBuilder = proto_Profile

definition addString :: "string \<Rightarrow> profileBuilder \<Rightarrow> nat \<times> profileBuilder" where
  "addString s b =
     (let b' = b\<lparr>StringTable := StringTable b @ [s]\<rparr>
      in (length (StringTable b') - 1, b'))"

definition addMappingEntry ::
  "uint64 \<Rightarrow> uint64 \<Rightarrow> uint64 \<Rightarrow> string \<Rightarrow> string \<Rightarrow> bool \<Rightarrow> profileBuilder \<Rightarrow> profileBuilder"
where
  "addMappingEntry lo hi offset file buildID fake b =
     (let nextIdx = length (Mapping b) + 1 in
      if fake then
        b\<lparr>Mapping := Mapping b @
             [\<lparr>Mapping_Id = nextIdx, MemoryStart = 0, MemoryLimit = push_bit 63 1,
               FileOffset = 0, Filename = 0, BuildId = 0\<rparr>]\<rparr>
      else
        let (fileIdx, b1) = addString file b;
            (buildIdx, b2) = addString buildID b1
        in b2\<lparr>Mapping := Mapping b2 @
             [\<lparr>Mapping_Id = nextIdx, MemoryStart = lo, MemoryLimit = hi,
               FileOffset = offset, Filename = fileIdx, BuildId = buildIdx\<rparr>]\<rparr>)"

definition addMapping ::
  "uint64 \<Rightarrow> uint64 \<Rightarrow> uint64 \<Rightarrow> string \<Rightarrow> string \<Rightarrow> profileBuilder \<Rightarrow> profileBuilder"
where
  "addMapping lo hi offset file buildID b = addMappingEntry lo hi offset file buildID False b"

text \<open>
  Modelled from the spec: \<open>readMapping\<close>, the platform-specific method that
  \<open>newProfileBuilder\<close> calls and that is not among the sources. The spec: "Add mapping
  table entries for known code regions, supplied by the external capture-primitive's
  platform integration; if none are known, add one synthetic mapping covering the full
  address space". The known regions are the parameter \<open>regions\<close>, each
  (lo, hi, offset, file, buildID); a region goes through \<open>addMapping\<close>, the synthetic
  mapping through \<open>addMappingEntry\<close> with \<open>fake\<close> set, both from the sources.
\<close>

type_synonym region = "uint64 \<times> uint64 \<times> uint64 \<times> string \<times> string"

definition readMapping :: "region list \<Rightarrow> profileBuilder \<Rightarrow> profileBuilder" where
  "readMapping regions b =
     (if regions = [] then addMappingEntry 0 0 0 [] [] True b
      else fold (\<lambda>(lo, hi, offset, file, buildID). addMapping lo hi offset file buildID) regions b)"

definition newProfileBuilder :: "int64 \<Rightarrow> int64 \<Rightarrow> region list \<Rightarrow> profileBuilder" where
  "newProfileBuilder timestampNanos durationNanos regions =
     readMapping regions
       \<lparr>StringTable = ['''', ''reads'', ''count'', ''read'', ''bytes''],
        Mapping = [], Location = [], Sample = [],
        DurationNanos = durationNanos, TimeNanos = timestampNanos, Period = 1,
        PeriodType = \<lparr>Type = 1, Unit = 2\<rparr>,
        SampleType = [\<lparr>Type = 1, Unit = 2\<rparr>, \<lparr>Type = 3, Unit = 4\<rparr>]\<rparr>"

text \<open>
  The scan of the mapping table in \<open>build\<close>: \<open>for i := 0; i < len(Mapping); i++\<close>, which
  breaks at the first mapping with \<open>MemoryStart <= addr < MemoryLimit\<close> and sets
  \<open>mappingId = i + 1\<close>; \<open>mappingId\<close> stays 0 when the loop ends without one.
\<close>

function findMapping :: "proto_Mapping list \<Rightarrow> nat \<Rightarrow> uint64 \<Rightarrow> nat" where
  "findMapping ms i addr =
     (if i < length ms
      then (if MemoryStart (ms ! i) \<le> addr \<and> addr < MemoryLimit (ms ! i) then i + 1
            else findMapping ms (i + 1) addr)
      else 0)"
  by pat_completeness auto
termination
  by (relation "measure (\<lambda>(ms, i, addr). length ms - i)") auto

text \<open>
  The state of the loops of \<open>build\<close>: the table \<open>locIdx\<close> from address to location id
  (a Go map, here an association list that is only ever extended by absent keys), the
  profile, and the slice \<open>locs\<close>.
\<close>

record buildState =
  locIdx :: "(uintptr \<times> nat) list"
  prof :: proto_Profile
  locs :: "nat list"

text \<open>The body of the inner loop, \<open>for _, loc := range sampleKey.locations\<close>.\<close>

definition visitLocation :: "uintptr \<Rightarrow> buildState \<Rightarrow> buildState" where
  "visitLocation loc st =
     (case map_of (locIdx st) loc of
        Some idx \<Rightarrow> st\<lparr>locs := locs st @ [idx]\<rparr>
      | None \<Rightarrow>
          let idx = length (locIdx st) + 1;
              mappingId = findMapping (Mapping (prof st)) 0 loc
          in st\<lparr>locIdx := locIdx st @ [(loc, idx)],
                prof := (prof st)\<lparr>Location := Location (prof st) @
                          [\<lparr>Location_Id = idx, MappingIndex = mappingId, Address = loc\<rparr>]\<rparr>,
                locs := locs st @ [idx]\<rparr>)"

text \<open>The body of the outer loop, for one entry of the sample map.\<close>

definition visitSample :: "sampleKey \<times> int64 \<times> int64 \<Rightarrow> buildState \<Rightarrow> buildState" where
  "visitSample e st =
     (let st1 = fold visitLocation (locations (fst e)) (st\<lparr>locs := []\<rparr>)
      in st1\<lparr>prof := (prof st1)\<lparr>Sample := Sample (prof st1) @
                [\<lparr>LocationIndex = locs st1,
                  Value = [fst (snd e), snd (snd e)],
                  Label = [\<lparr>Key = 4, Num = push_bit (unat (sizeBucketPower (fst e))) 1\<rparr>]\<rparr>]\<rparr>\<rparr>)"

text \<open>
  \<open>build\<close>. Go visits the entries of a map in an order of its choosing; \<open>entries\<close> is
  the sample map in the order in which \<open>range\<close> yields it.
\<close>

definition buildLoop :: "sampleMap \<Rightarrow> profileBuilder \<Rightarrow> buildState" where
  "buildLoop entries b =
     fold visitSample entries \<lparr>locIdx = [], prof = b\<lparr>Sample := []\<rparr>, locs = []\<rparr>"

definition build :: "sampleMap \<Rightarrow> profileBuilder \<Rightarrow> proto_Profile" where
  "build entries b = prof (buildLoop entries b)"

text \<open>
  \<open>Stop\<close>; \<open>now\<close> is what \<open>time.Now().UnixNano()\<close> returns after the lock is released,
  \<open>regions\<close> what \<open>readMapping\<close> finds, and \<open>rangeOrder\<close> the order in which \<open>range\<close>
  visits the map (a permutation of its entries); over a nil map it visits nothing. The
  field \<open>samples\<close> keeps the map; the next \<open>Start\<close> replaces it.
\<close>

definition Stop ::
  "int64 \<Rightarrow> region list \<Rightarrow> (sampleMap \<Rightarrow> sampleMap) \<Rightarrow> Rprof \<Rightarrow> (error + proto_Profile) \<times> Rprof"
where
  "Stop now regions rangeOrder p =
     (if startTime p = 0 then (Inl NotRunning, p)
      else
        let ts = startTime p;
            smp = (case samples p of None \<Rightarrow> [] | Some m \<Rightarrow> m);
            p' = p\<lparr>startTime := 0\<rparr>;
            duration = now - ts;
            b = newProfileBuilder ts duration regions
        in (Inr (build (rangeOrder smp) b), p'))"

section \<open>The read adapters\<close>

text \<open>
  The wrapped reader is a function from its own state to the pair \<open>(n, err)\<close> it returns
  and its next state; the buffer (and the offset of \<open>ReadAt\<close>) are arguments of it.
  \<open>callers\<close> is the stack at the call, as in \<open>captureKey\<close>.
\<close>

definition RprofReader_Read ::
  "('buf \<Rightarrow> 'r \<Rightarrow> (go_int \<times> 'e) \<times> 'r) \<Rightarrow> uintptr list \<Rightarrow> 'buf \<Rightarrow> 'r \<times> Rprof
     \<Rightarrow> fault + ((go_int \<times> 'e) \<times> 'r \<times> Rprof)"
where
  "RprofReader_Read rd callers buf s =
     (let ((n, err), r') = rd buf (fst s) in
      case recordSample n callers (snd s) of
        Inl f \<Rightarrow> Inl f
      | Inr p' \<Rightarrow> Inr ((n, err), r', p'))"

definition RprofReadCloser_Read ::
  "('buf \<Rightarrow> 'r \<Rightarrow> (go_int \<times> 'e) \<times> 'r) \<Rightarrow> uintptr list \<Rightarrow> 'buf \<Rightarrow> 'r \<times> Rprof
     \<Rightarrow> fault + ((go_int \<times> 'e) \<times> 'r \<times> Rprof)"
where
  "RprofReadCloser_Read rd callers buf s =
     (let ((n, err), r') = rd buf (fst s) in
      case recordSample n callers (snd s) of
        Inl f \<Rightarrow> Inl f
      | Inr p' \<Rightarrow> Inr ((n, err), r', p'))"

definition RprofReaderAt_ReadAt ::
  "('buf \<Rightarrow> int64 \<Rightarrow> 'r \<Rightarrow> (go_int \<times> 'e) \<times> 'r) \<Rightarrow> uintptr list \<Rightarrow> 'buf \<Rightarrow> int64 \<Rightarrow> 'r \<times> Rprof
     \<Rightarrow> fault + ((go_int \<times> 'e) \<times> 'r \<times> Rprof)"
where
  "RprofReaderAt_ReadAt rd callers buf off s =
     (let ((n, err), r') = rd buf off (fst s) in
      case recordSample n callers (snd s) of
        Inl f \<Rightarrow> Inl f
      | Inr p' \<Rightarrow> Inr ((n, err), r', p'))"

section \<open>Reading a profile\<close>

text \<open>
  How a consumer of the profile resolves a location id: the address of the first entry
  of the location table with that id, and the stack of a sample, the addresses of its
  location ids in order.
\<close>

definition locationAddress :: "proto_Profile \<Rightarrow> nat \<Rightarrow> uint64 option" where
  "locationAddress pr i = map_option Address (find (\<lambda>l. Location_Id l = i) (Location pr))"

definition sampleStack :: "proto_Profile \<Rightarrow> proto_Sample \<Rightarrow> uint64 option list" where
  "sampleStack pr s = map (locationAddress pr) (LocationIndex s)"

section \<open>Auxiliary notions for the proofs\<close>

text \<open>
  The location table that \<open>build\<close> appends for an address table \<open>ix\<close>, and the sample
  that it emits for a map entry once the addresses of its key are in \<open>ix\<close>.
\<close>

definition locTable :: "proto_Mapping list \<Rightarrow> (uintptr \<times> nat) list \<Rightarrow> proto_Location list" where
  "locTable ms ix =
     map (\<lambda>x. \<lparr>Location_Id = snd x, MappingIndex = findMapping ms 0 (fst x), Address = fst x\<rparr>) ix"

definition emitSample :: "(uintptr \<times> nat) list \<Rightarrow> sampleKey \<times> int64 \<times> int64 \<Rightarrow> proto_Sample" where
  "emitSample ix e =
     \<lparr>LocationIndex = map (\<lambda>a. the (map_of ix a)) (locations (fst e)),
      Value = [fst (snd e), snd (snd e)],
      Label = [\<lparr>Key = 4, Num = push_bit (unat (sizeBucketPower (fst e))) 1\<rparr>]\<rparr>"

text \<open>An address table is in order: its ids are 1, 2, ... and no address occurs twice.\<close>

definition idxOk :: "(uintptr \<times> nat) list \<Rightarrow> bool" where
  "idxOk ix \<longleftrightarrow> map snd ix = [1 ..< Suc (length ix)] \<and> distinct (map fst ix)"

text \<open>The key of a call of \<open>recordSample\<close> given as (size, callers).\<close>

definition eventKey :: "go_int \<times> uintptr list \<Rightarrow> sampleKey" where
  "eventKey e = captureKey (fst e) (snd e)"

section \<open>Size bucketing: properties\<close>

declare nextPowerOfTwo_loop.simps [simp del]

lemma sint_pow2:
  assumes "i < 63" shows "sint (2 ^ i :: 64 word) = 2 ^ i"
proof -
  have lt: "(2::int) ^ i < 2 ^ 63" by (rule power_strict_increasing) (use assms in auto)
  have "sint (word_of_int (2 ^ i) :: 64 word) = signed_take_bit (LENGTH(64) - 1) ((2::int) ^ i)"
    by (rule sint_sbintrunc')
  then have "sint (2 ^ i :: 64 word) = signed_take_bit 63 ((2::int) ^ i)"
    by simp
  also have "\<dots> = 2 ^ i"
  proof (rule signed_take_bit_int_eq_self)
    have "- ((2::int) ^ 63) \<le> 0" by simp
    also have "(0::int) \<le> 2 ^ i" by simp
    finally show "- ((2::int) ^ 63) \<le> 2 ^ i" .
    show "(2::int) ^ i < 2 ^ 63" by (rule lt)
  qed
  finally show ?thesis .
qed

lemma sle_pow2: "i < 63 \<Longrightarrow> (s \<le>s (2 ^ i :: 64 word)) = (sint s \<le> 2 ^ i)"
  by (simp add: word_sle_eq sint_pow2)

lemma sle_push1: "i < 63 \<Longrightarrow> (s \<le>s (push_bit i 1 :: 64 word)) = (sint s \<le> 2 ^ i)"
  by (simp add: sle_pow2)

lemma sint_lt63: "sint (s :: 64 word) < 2 ^ 63"
  using sint_lt [of s] by simp

lemma unat_of_nat8: "i \<le> 63 \<Longrightarrow> unat (of_nat i :: 8 word) = i"
  by (simp add: unsigned_of_nat take_bit_nat_eq_self)

lemma loop_inv:
  "i \<le> 63 \<Longrightarrow> (\<forall>j<i. \<not> sint s \<le> 2 ^ j) \<Longrightarrow>
     (let b = unat (nextPowerOfTwo_loop i s) in
        i \<le> b \<and> b \<le> 63 \<and> sint s \<le> 2 ^ b \<and> (\<forall>j<b. \<not> sint s \<le> 2 ^ j))"
proof (induction i s rule: nextPowerOfTwo_loop.induct)
  case (1 i input)
  show ?case
  proof (cases "i < 63")
    case False
    with 1(2) have i: "i = 63" by simp
    have "sint input \<le> 2 ^ 63" using sint_lt63 [of input] by simp
    with i 1(3) show ?thesis
      by (simp add: nextPowerOfTwo_loop.simps [of 63 input] Let_def)
  next
    case True
    show ?thesis
    proof (cases "input \<le>s push_bit i 1")
      case le: True
      with True have "sint input \<le> 2 ^ i" by (simp add: sle_pow2)
      with True le 1(3) show ?thesis
        by (simp add: nextPowerOfTwo_loop.simps [of i input] Let_def unat_of_nat8)
    next
      case nle: False
      with True have n: "\<not> sint input \<le> 2 ^ i" by (simp add: sle_pow2)
      have "\<forall>j<i + 1. \<not> sint input \<le> 2 ^ j"
      proof (intro allI impI)
        fix j assume "j < i + 1"
        then have "j < i \<or> j = i" by auto
        then show "\<not> sint input \<le> 2 ^ j" using n 1(3) by auto
      qed
      with 1(1) [OF True nle] True
      have "let b = unat (nextPowerOfTwo_loop (i + 1) input) in
              i + 1 \<le> b \<and> b \<le> 63 \<and> sint input \<le> 2 ^ b \<and> (\<forall>j<b. \<not> sint input \<le> 2 ^ j)"
        by simp
      with True nle show ?thesis
        by (simp add: nextPowerOfTwo_loop.simps [of i input] Let_def)
    qed
  qed
qed

lemma nextPowerOfTwo_least:
  "unat (nextPowerOfTwo s) \<le> 63 \<and> sint s \<le> 2 ^ unat (nextPowerOfTwo s) \<and>
   (\<forall>j<unat (nextPowerOfTwo s). \<not> sint s \<le> 2 ^ j)"
  using loop_inv [of 0 s] by (simp add: nextPowerOfTwo_def Let_def)

text \<open>
  Claim C2. For every size \<open>s\<close> (read as a signed 64-bit \<open>int\<close>; in particular for every
  \<open>s \<ge> 1\<close>) the exponent \<open>b = nextPowerOfTwo s\<close> satisfies \<open>2^b \<ge> s\<close>, it is the smallest
  exponent that does, \<open>2^(b-1) < s\<close> whenever \<open>b \<ge> 1\<close>, and \<open>b \<le> 63\<close>, with \<open>b = 63\<close> when
  none of the powers \<open>2^0 .. 2^62\<close> that the loop tries reaches \<open>s\<close>. Sizes 0 and 1 map to
  bucket 0, and 1, 2, 4, 14, 31 map to 0, 1, 2, 4, 5.
\<close>

theorem nextPowerOfTwo_smallest_exponent:
  "sint s \<le> 2 ^ unat (nextPowerOfTwo s) \<and>
   (\<forall>c. sint s \<le> 2 ^ c \<longrightarrow> unat (nextPowerOfTwo s) \<le> c) \<and>
   (1 \<le> unat (nextPowerOfTwo s) \<longrightarrow> 2 ^ (unat (nextPowerOfTwo s) - 1) < sint s) \<and>
   unat (nextPowerOfTwo s) \<le> 63 \<and>
   ((\<forall>i<63. 2 ^ i < sint s) \<longrightarrow> nextPowerOfTwo s = 63) \<and>
   nextPowerOfTwo 0 = 0 \<and> nextPowerOfTwo 1 = 0 \<and> nextPowerOfTwo 2 = 1 \<and>
   nextPowerOfTwo 4 = 2 \<and> nextPowerOfTwo 14 = 4 \<and> nextPowerOfTwo 31 = 5"
proof -
  let ?b = "unat (nextPowerOfTwo s)"
  note L = nextPowerOfTwo_least [of s]
  have up: "sint s \<le> 2 ^ ?b" and b63: "?b \<le> 63"
    and below: "\<And>j. j < ?b \<Longrightarrow> \<not> sint s \<le> 2 ^ j"
    using L by auto
  have least: "\<forall>c. sint s \<le> 2 ^ c \<longrightarrow> ?b \<le> c"
  proof (intro allI impI)
    fix c assume c: "sint s \<le> 2 ^ c"
    show "?b \<le> c"
    proof (rule ccontr)
      assume "\<not> ?b \<le> c"
      then have "c < ?b" by simp
      from below [OF this] c show False by simp
    qed
  qed
  have prev: "1 \<le> ?b \<longrightarrow> 2 ^ (?b - 1) < sint s"
  proof
    assume "1 \<le> ?b"
    then have "?b - 1 < ?b" by simp
    from below [OF this] show "2 ^ (?b - 1) < sint s" by simp
  qed
  have cap: "(\<forall>i<63. 2 ^ i < sint s) \<longrightarrow> nextPowerOfTwo s = 63"
  proof
    assume a: "\<forall>i<63. 2 ^ i < sint s"
    have "\<not> ?b < 63"
    proof
      assume "?b < 63"
      with a have "2 ^ ?b < sint s" by blast
      with up show False by simp
    qed
    with b63 have "?b = 63" by simp
    then have "?b = unat (63 :: uint8)" by simp
    then show "nextPowerOfTwo s = 63" by (simp only: word_unat_eq_iff)
  qed
  have c0: "nextPowerOfTwo 0 = 0" by code_simp
  have c1: "nextPowerOfTwo 1 = 0" by code_simp
  have c2: "nextPowerOfTwo 2 = 1" by code_simp
  have c4: "nextPowerOfTwo 4 = 2" by code_simp
  have c14: "nextPowerOfTwo 14 = 4" by code_simp
  have c31: "nextPowerOfTwo 31 = 5" by code_simp
  from up least prev b63 cap c0 c1 c2 c4 c14 c31 show ?thesis by blast
qed

theorem nextPowerOfTwo_smallest_exponent_witness:
  "sint (5000 :: go_int) \<le> 2 ^ 13 \<and> nextPowerOfTwo 5000 = 13 \<and>
   (2::int) ^ (13 - 1) < sint (5000 :: go_int) \<and>
   (2::int) ^ 62 < sint (4611686018427387905 :: go_int) \<and>
   nextPowerOfTwo 4611686018427387905 = 63"
proof -
  have h: "sint (5000 :: go_int) \<le> 2 ^ 13" by simp
  have e: "nextPowerOfTwo 5000 = 13" by code_simp
  from nextPowerOfTwo_smallest_exponent [of 5000] h
  have le: "unat (nextPowerOfTwo 5000) \<le> 13"
    and pr: "1 \<le> unat (nextPowerOfTwo 5000) \<longrightarrow>
             2 ^ (unat (nextPowerOfTwo 5000) - 1) < sint (5000 :: go_int)"
    by blast+
  have big: "\<forall>i<63. (2::int) ^ i < sint (4611686018427387905 :: go_int)"
  proof (intro allI impI)
    fix i :: nat assume "i < 63"
    then have "i \<le> 62" by simp
    then have "(2::int) ^ i \<le> 2 ^ 62" by (rule power_increasing) simp
    then show "(2::int) ^ i < sint (4611686018427387905 :: go_int)" by simp
  qed
  with nextPowerOfTwo_smallest_exponent [of 4611686018427387905]
  have cap: "nextPowerOfTwo 4611686018427387905 = 63" by blast
  have top: "(2::int) ^ 62 < sint (4611686018427387905 :: go_int)" by simp
  from e h pr top cap show ?thesis by simp
qed

section \<open>The accumulator: properties\<close>

lemma sampleAt_update:
  "sampleAt (AList.update k v m) k' = (if k' = k then v else sampleAt m k')"
  by (simp add: sampleAt_def update_conv')

lemma recordSample_running_eq:
  assumes "startTime p \<noteq> 0" and "samples p = Some m"
  shows "recordSample n callers p =
           Inr (p\<lparr>samples := Some (AList.update (captureKey n callers)
                  (fst (sampleAt m (captureKey n callers)) + 1,
                   snd (sampleAt m (captureKey n callers)) + n) m)\<rparr>)"
  using assms by (simp add: recordSample_def Let_def)

lemma recordSample_stopped: "startTime p = 0 \<Longrightarrow> recordSample n callers p = Inr p"
  by (simp add: recordSample_def)

text \<open>
  A running profiler has a map: this holds of the profiler that \<open>NewProfiler\<close> makes, and
  \<open>Start\<close>, \<open>Stop\<close> and \<open>recordSample\<close> keep it, so \<open>recordSample\<close> never assigns to the
  nil map.
\<close>

lemma running_has_map_NewProfiler:
  "startTime NewProfiler \<noteq> 0 \<longrightarrow> samples NewProfiler \<noteq> None"
  by (simp add: NewProfiler_def)

lemma running_has_map_Start:
  "(startTime p \<noteq> 0 \<longrightarrow> samples p \<noteq> None) \<Longrightarrow>
   (startTime (snd (Start now p)) \<noteq> 0 \<longrightarrow> samples (snd (Start now p)) \<noteq> None)"
  by (simp add: Start_def)

lemma running_has_map_Stop:
  "(startTime p \<noteq> 0 \<longrightarrow> samples p \<noteq> None) \<Longrightarrow>
   (startTime (snd (Stop now regions rangeOrder p)) \<noteq> 0 \<longrightarrow>
      samples (snd (Stop now regions rangeOrder p)) \<noteq> None)"
  by (simp add: Stop_def Let_def)

lemma running_has_map_recordSample:
  "(startTime p \<noteq> 0 \<longrightarrow> samples p \<noteq> None) \<Longrightarrow>
   \<exists>p'. recordSample sz callers p = Inr p' \<and>
         (startTime p' \<noteq> 0 \<longrightarrow> samples p' \<noteq> None)"
  by (cases "startTime p = 0") (auto simp: recordSample_def Let_def)

text \<open>
  Claim C7. There are exactly two errors. \<open>Start\<close> returns \<open>AlreadyRunning\<close> exactly
  when a window is open (\<open>startTime\<close> is not 0) and then leaves the state, start time and
  sample map included, as it was; \<open>Stop\<close> returns \<open>NotRunning\<close>, and no profile, exactly
  when no window is open, and then leaves the state as it was.
\<close>

theorem Start_Stop_errors:
  "(fst (Start now p) = Some AlreadyRunning \<longleftrightarrow> startTime p \<noteq> 0) \<and>
   (fst (Start now p) = None \<longleftrightarrow> startTime p = 0) \<and>
   (startTime p \<noteq> 0 \<longrightarrow> snd (Start now p) = p) \<and>
   (fst (Stop now regions rangeOrder p) = Inl NotRunning \<longleftrightarrow> startTime p = 0) \<and>
   ((\<exists>pr. fst (Stop now regions rangeOrder p) = Inr pr) \<longleftrightarrow> startTime p \<noteq> 0) \<and>
   (startTime p = 0 \<longrightarrow> snd (Stop now regions rangeOrder p) = p) \<and>
   (\<forall>e :: error. e = AlreadyRunning \<or> e = NotRunning) \<and> AlreadyRunning \<noteq> NotRunning"
proof -
  have "\<forall>e :: error. e = AlreadyRunning \<or> e = NotRunning"
    by (rule allI) (case_tac e, simp_all)
  then show ?thesis
    by (simp add: Start_def Stop_def Let_def)
qed

theorem Start_Stop_errors_witness:
  "Start 18 \<lparr>samples = Some [], startTime = 17\<rparr> =
     (Some AlreadyRunning, \<lparr>samples = Some [], startTime = 17\<rparr>) \<and>
   Stop 18 [] id NewProfiler = (Inl NotRunning, NewProfiler)"
proof -
  have a: "startTime \<lparr>samples = Some [], startTime = 17\<rparr> \<noteq> 0" by simp
  have b: "startTime NewProfiler = 0" by (simp add: NewProfiler_def)
  from Start_Stop_errors [of 18 "\<lparr>samples = Some [], startTime = 17\<rparr>" "[]" id] a
  have 1: "fst (Start 18 \<lparr>samples = Some [], startTime = 17\<rparr>) = Some AlreadyRunning"
    and 2: "snd (Start 18 \<lparr>samples = Some [], startTime = 17\<rparr>) = \<lparr>samples = Some [], startTime = 17\<rparr>"
    by blast+
  from Start_Stop_errors [of 18 NewProfiler "[]" id] b
  have 3: "fst (Stop 18 [] id NewProfiler) = Inl NotRunning"
    and 4: "snd (Stop 18 [] id NewProfiler) = NewProfiler"
    by blast+
  from 1 2 3 4 show ?thesis by (simp add: prod_eq_iff)
qed

text \<open>
  Claim C8. For every size and stack, \<open>recordSample\<close> on a profiler that is not running
  returns normally with the state unchanged: the start time (the running flag) and the
  sample map with all its counters are as before. This holds in particular for a
  profiler fresh from \<open>NewProfiler\<close>, on which \<open>Start\<close> was never called. The Go function
  has no result, so nothing is signalled to the caller.
\<close>

theorem recordSample_not_running_noop:
  "(startTime p = 0 \<longrightarrow> recordSample sz callers p = Inr p) \<and>
   recordSample sz callers NewProfiler = Inr NewProfiler"
  by (simp add: recordSample_def NewProfiler_def)

theorem recordSample_not_running_noop_witness:
  "recordSample 4096 [1, 2, 3] \<lparr>samples = Some [(captureKey 4096 [1, 2, 3], 7, 9)], startTime = 0\<rparr>
     = Inr \<lparr>samples = Some [(captureKey 4096 [1, 2, 3], 7, 9)], startTime = 0\<rparr>"
  using recordSample_not_running_noop
    [of "\<lparr>samples = Some [(captureKey 4096 [1, 2, 3], 7, 9)], startTime = 0\<rparr>" 4096 "[1, 2, 3]"]
  by simp

text \<open>
  Claim C10. Each of the three adapters calls the wrapped reader, records the returned
  \<open>n\<close> whatever \<open>n\<close> and \<open>err\<close> are, and returns \<open>(n, err)\<close> as the wrapped reader gave them.
  On a running profiler the entry of the key of the call (its stack and the bucket of
  \<open>n\<close>) gets its count incremented by 1 and its byte sum by \<open>n\<close>, every other entry stays
  as it was, and \<open>n = 0\<close> falls in bucket 0. On a profiler that is not running the result
  is passed through as well.
\<close>

theorem adapters_record_every_read:
  fixes rd :: "'buf \<Rightarrow> 'r \<Rightarrow> (go_int \<times> 'e) \<times> 'r"
    and rda :: "'buf \<Rightarrow> int64 \<Rightarrow> 'r \<Rightarrow> (go_int \<times> 'e) \<times> 'r"
  assumes "startTime p \<noteq> 0" and "samples p = Some m"
    and "rd buf r = ((n, err), r')" and "rda buf off r = ((n, err), r')"
    and "startTime q = 0"
  shows "\<exists>m'. RprofReader_Read rd callers buf (r, p) = Inr ((n, err), r', p\<lparr>samples := Some m'\<rparr>) \<and>
           RprofReadCloser_Read rd callers buf (r, p) = Inr ((n, err), r', p\<lparr>samples := Some m'\<rparr>) \<and>
           RprofReaderAt_ReadAt rda callers buf off (r, p) = Inr ((n, err), r', p\<lparr>samples := Some m'\<rparr>) \<and>
           sampleAt m' (captureKey n callers) =
             (fst (sampleAt m (captureKey n callers)) + 1, snd (sampleAt m (captureKey n callers)) + n) \<and>
           map_of m' (captureKey n callers) = Some (sampleAt m' (captureKey n callers)) \<and>
           (\<forall>k'. k' \<noteq> captureKey n callers \<longrightarrow> map_of m' k' = map_of m k') \<and>
           sizeBucketPower (captureKey n callers) = nextPowerOfTwo n \<and>
           sizeBucketPower (captureKey 0 callers) = 0 \<and>
           RprofReader_Read rd callers buf (r, q) = Inr ((n, err), r', q) \<and>
           RprofReadCloser_Read rd callers buf (r, q) = Inr ((n, err), r', q) \<and>
           RprofReaderAt_ReadAt rda callers buf off (r, q) = Inr ((n, err), r', q)"
proof -
  let ?k = "captureKey n callers"
  let ?m' = "AList.update ?k (fst (sampleAt m ?k) + 1, snd (sampleAt m ?k) + n) m"
  note rec = recordSample_running_eq [OF assms(1,2), of n callers]
  have z: "nextPowerOfTwo 0 = 0" by code_simp
  have 1: "RprofReader_Read rd callers buf (r, p) = Inr ((n, err), r', p\<lparr>samples := Some ?m'\<rparr>)"
    using assms(3) rec by (simp add: RprofReader_Read_def)
  have 2: "RprofReadCloser_Read rd callers buf (r, p) = Inr ((n, err), r', p\<lparr>samples := Some ?m'\<rparr>)"
    using assms(3) rec by (simp add: RprofReadCloser_Read_def)
  have 3: "RprofReaderAt_ReadAt rda callers buf off (r, p) = Inr ((n, err), r', p\<lparr>samples := Some ?m'\<rparr>)"
    using assms(4) rec by (simp add: RprofReaderAt_ReadAt_def)
  have 4: "sampleAt ?m' ?k = (fst (sampleAt m ?k) + 1, snd (sampleAt m ?k) + n)"
    by (simp add: sampleAt_update)
  have 5: "map_of ?m' ?k = Some (sampleAt ?m' ?k)"
    by (simp add: sampleAt_def update_conv')
  have 6: "\<forall>k'. k' \<noteq> ?k \<longrightarrow> map_of ?m' k' = map_of m k'"
    by (simp add: update_conv')
  have 7: "sizeBucketPower ?k = nextPowerOfTwo n" "sizeBucketPower (captureKey 0 callers) = 0"
    by (simp_all add: captureKey_def z)
  note st = recordSample_stopped [OF assms(5), of n callers]
  have 8: "RprofReader_Read rd callers buf (r, q) = Inr ((n, err), r', q)"
    using assms(3) st by (simp add: RprofReader_Read_def)
  have 9: "RprofReadCloser_Read rd callers buf (r, q) = Inr ((n, err), r', q)"
    using assms(3) st by (simp add: RprofReadCloser_Read_def)
  have 10: "RprofReaderAt_ReadAt rda callers buf off (r, q) = Inr ((n, err), r', q)"
    using assms(4) st by (simp add: RprofReaderAt_ReadAt_def)
  show ?thesis
    by (rule exI [of _ ?m']) (use 1 2 3 4 5 6 7 8 9 10 in blast)
qed

theorem adapters_record_every_read_witness:
  "\<exists>m'. RprofReader_Read (\<lambda>(b :: nat) (r :: nat). (((0 :: go_int), ''EOF''), r + 1)) [1, 2] 512
           (0, \<lparr>samples = Some [], startTime = 5\<rparr>)
          = Inr ((0, ''EOF''), 1, \<lparr>samples = Some m', startTime = 5\<rparr>) \<and>
         sampleAt m' (captureKey 0 [1, 2]) = (1, 0) \<and>
         sizeBucketPower (captureKey 0 [1, 2]) = 0 \<and>
         RprofReaderAt_ReadAt (\<lambda>(b :: nat) (off :: int64) (r :: nat). (((0 :: go_int), ''EOF''), r + 1))
           [1, 2] 512 7 (0, NewProfiler)
          = Inr ((0, ''EOF''), 1, NewProfiler)"
proof -
  let ?rd = "\<lambda>(b :: nat) (r :: nat). (((0 :: go_int), ''EOF''), r + 1)"
  let ?rda = "\<lambda>(b :: nat) (off :: int64) (r :: nat). (((0 :: go_int), ''EOF''), r + 1)"
  let ?p = "\<lparr>samples = Some [], startTime = 5\<rparr>"
  have h: "startTime ?p \<noteq> 0" "samples ?p = Some []"
    "?rd 512 0 = ((0, ''EOF''), 1)" "?rda 512 7 0 = ((0, ''EOF''), 1)"
    "startTime NewProfiler = 0"
    by (simp_all add: NewProfiler_def)
  note T = adapters_record_every_read [where p = ?p and m = "[]" and rd = ?rd and rda = ?rda
      and buf = 512 and off = 7 and r = 0 and n = 0 and err = "''EOF''" and r' = 1
      and q = NewProfiler and callers = "[1, 2]"]
  from T [OF h]
  obtain m' where
    "RprofReader_Read ?rd [1, 2] 512 (0, ?p) = Inr ((0, ''EOF''), 1, ?p\<lparr>samples := Some m'\<rparr>)"
    "sampleAt m' (captureKey 0 [1, 2]) =
       (fst (sampleAt [] (captureKey 0 [1, 2])) + 1, snd (sampleAt [] (captureKey 0 [1, 2])) + 0)"
    "sizeBucketPower (captureKey 0 [1, 2]) = 0"
    "RprofReaderAt_ReadAt ?rda [1, 2] 512 7 (0, NewProfiler) = Inr ((0, ''EOF''), 1, NewProfiler)"
    by blast
  then show ?thesis
    by (intro exI [of _ m']) (simp add: sampleAt_def)
qed

section \<open>The profile builder: properties\<close>

declare findMapping.simps [simp del]

lemma map_of_append_Some: "map_of ix a = Some i \<Longrightarrow> map_of (ix @ ext) a = Some i"
  by (simp add: map_add_Some_iff)

lemma map_of_append_dom: "map_of ix a \<noteq> None \<Longrightarrow> map_of (ix @ ext) a = map_of ix a"
  by (auto simp: map_of_append_Some)

text \<open>One step of the inner loop.\<close>

lemma visitLocation_step:
  "\<exists>ext i. locIdx (visitLocation a st) = locIdx st @ ext \<and>
           map_of (locIdx (visitLocation a st)) a = Some i \<and>
           locs (visitLocation a st) = locs st @ [i] \<and>
           prof (visitLocation a st) =
             (prof st)\<lparr>Location := Location (prof st) @ locTable (Mapping (prof st)) ext\<rparr> \<and>
           (idxOk (locIdx st) \<longrightarrow> idxOk (locIdx (visitLocation a st)))"
proof (cases "map_of (locIdx st) a")
  case None
  then have "a \<notin> fst ` set (locIdx st)" by (simp add: map_of_eq_None_iff)
  with None show ?thesis
    apply (intro exI [of _ "[(a, Suc (length (locIdx st)))]"] exI [of _ "Suc (length (locIdx st))"])
    apply (simp add: visitLocation_def Let_def locTable_def map_add_Some_iff idxOk_def)
    done
next
  case (Some i)
  then show ?thesis
    apply (intro exI [of _ "[]"] exI [of _ i])
    apply (simp add: visitLocation_def locTable_def)
    done
qed

lemma locTable_append: "locTable ms (e1 @ e2) = locTable ms e1 @ locTable ms e2"
  by (simp add: locTable_def)

text \<open>The inner loop over the addresses of one key.\<close>

lemma fold_visitLocation:
  "\<exists>ext. locIdx (fold visitLocation as st) = locIdx st @ ext \<and>
         locs (fold visitLocation as st) =
           locs st @ map (\<lambda>a. the (map_of (locIdx (fold visitLocation as st)) a)) as \<and>
         (\<forall>a \<in> set as. map_of (locIdx (fold visitLocation as st)) a \<noteq> None) \<and>
         prof (fold visitLocation as st) =
           (prof st)\<lparr>Location := Location (prof st) @ locTable (Mapping (prof st)) ext\<rparr> \<and>
         (idxOk (locIdx st) \<longrightarrow> idxOk (locIdx (fold visitLocation as st)))"
proof (induction as arbitrary: st)
  case Nil
  show ?case by (intro exI [of _ "[]"]) (simp add: locTable_def)
next
  case (Cons a as)
  let ?s1 = "visitLocation a st"
  let ?s2 = "fold visitLocation as ?s1"
  from visitLocation_step [of a st] obtain e1 i where
    s1: "locIdx ?s1 = locIdx st @ e1" "map_of (locIdx ?s1) a = Some i"
      "locs ?s1 = locs st @ [i]"
      "prof ?s1 = (prof st)\<lparr>Location := Location (prof st) @ locTable (Mapping (prof st)) e1\<rparr>"
      "idxOk (locIdx st) \<longrightarrow> idxOk (locIdx ?s1)"
    by blast
  from Cons.IH [of ?s1] obtain e2 where
    s2: "locIdx ?s2 = locIdx ?s1 @ e2"
      "locs ?s2 = locs ?s1 @ map (\<lambda>a. the (map_of (locIdx ?s2) a)) as"
      "\<forall>a \<in> set as. map_of (locIdx ?s2) a \<noteq> None"
      "prof ?s2 = (prof ?s1)\<lparr>Location := Location (prof ?s1) @ locTable (Mapping (prof ?s1)) e2\<rparr>"
      "idxOk (locIdx ?s1) \<longrightarrow> idxOk (locIdx ?s2)"
    by blast
  have a: "map_of (locIdx ?s2) a = Some i"
    using s1(2) s2(1) by (simp only: map_of_append_Some)
  have "locIdx ?s2 = locIdx st @ (e1 @ e2)" using s1(1) s2(1) by simp
  moreover have "locs ?s2 = locs st @ map (\<lambda>a. the (map_of (locIdx ?s2) a)) (a # as)"
    using s1(3) s2(2) a by simp
  moreover have "\<forall>x \<in> set (a # as). map_of (locIdx ?s2) x \<noteq> None"
    using a s2(3) by simp
  moreover have "prof ?s2 =
      (prof st)\<lparr>Location := Location (prof st) @ locTable (Mapping (prof st)) (e1 @ e2)\<rparr>"
    using s1(4) s2(4) by (simp add: locTable_append)
  moreover have "idxOk (locIdx st) \<longrightarrow> idxOk (locIdx ?s2)"
    using s1(5) s2(5) by blast
  ultimately show ?case
    by (intro exI [of _ "e1 @ e2"]) simp
qed

text \<open>The sample of an entry does not change when the address table grows.\<close>

lemma emitSample_append:
  assumes "\<forall>a \<in> set (locations (fst e)). map_of ix a \<noteq> None"
  shows "emitSample (ix @ ext) e = emitSample ix e"
proof -
  have "map (\<lambda>a. the (map_of (ix @ ext) a)) (locations (fst e)) =
        map (\<lambda>a. the (map_of ix a)) (locations (fst e))"
    using assms by (intro map_cong refl) (simp add: map_of_append_dom del: map_of_append)
  then show ?thesis by (simp add: emitSample_def)
qed

text \<open>One step of the outer loop.\<close>

lemma visitSample_step:
  "\<exists>ext. locIdx (visitSample e st) = locIdx st @ ext \<and>
         (\<forall>a \<in> set (locations (fst e)). map_of (locIdx (visitSample e st)) a \<noteq> None) \<and>
         prof (visitSample e st) =
           (prof st)\<lparr>Location := Location (prof st) @ locTable (Mapping (prof st)) ext,
                     Sample := Sample (prof st) @ [emitSample (locIdx (visitSample e st)) e]\<rparr> \<and>
         (idxOk (locIdx st) \<longrightarrow> idxOk (locIdx (visitSample e st)))"
proof -
  let ?s0 = "st\<lparr>locs := []\<rparr>"
  let ?s1 = "fold visitLocation (locations (fst e)) ?s0"
  from fold_visitLocation [of "locations (fst e)" ?s0] obtain ext where
    f0: "locIdx ?s1 = locIdx ?s0 @ ext"
      "locs ?s1 = locs ?s0 @ map (\<lambda>a. the (map_of (locIdx ?s1) a)) (locations (fst e))"
      "\<forall>a \<in> set (locations (fst e)). map_of (locIdx ?s1) a \<noteq> None"
      "prof ?s1 = (prof ?s0)\<lparr>Location := Location (prof ?s0) @ locTable (Mapping (prof ?s0)) ext\<rparr>"
      "idxOk (locIdx ?s0) \<longrightarrow> idxOk (locIdx ?s1)"
    by blast
  have f: "locIdx ?s1 = locIdx st @ ext"
      "locs ?s1 = map (\<lambda>a. the (map_of (locIdx ?s1) a)) (locations (fst e))"
      "\<forall>a \<in> set (locations (fst e)). map_of (locIdx ?s1) a \<noteq> None"
      "prof ?s1 = (prof st)\<lparr>Location := Location (prof st) @ locTable (Mapping (prof st)) ext\<rparr>"
      "idxOk (locIdx st) \<longrightarrow> idxOk (locIdx ?s1)"
    using f0 by simp_all
  have l: "locIdx (visitSample e st) = locIdx ?s1"
    by (simp add: visitSample_def Let_def)
  have p: "prof (visitSample e st) =
      (prof ?s1)\<lparr>Sample := Sample (prof ?s1) @ [emitSample (locIdx ?s1) e]\<rparr>"
    using f(2) by (simp add: visitSample_def Let_def emitSample_def)
  show ?thesis
    apply (rule exI [of _ ext])
    apply (simp only: l p)
    using f(1,3,4,5) apply (simp del: map_of_append)
    done
qed

text \<open>The outer loop over the entries of the sample map.\<close>

lemma fold_visitSample:
  "\<exists>ext. locIdx (fold visitSample es st) = locIdx st @ ext \<and>
         (\<forall>e \<in> set es. \<forall>a \<in> set (locations (fst e)).
             map_of (locIdx (fold visitSample es st)) a \<noteq> None) \<and>
         prof (fold visitSample es st) =
           (prof st)\<lparr>Location := Location (prof st) @ locTable (Mapping (prof st)) ext,
                     Sample := Sample (prof st) @
                       map (emitSample (locIdx (fold visitSample es st))) es\<rparr> \<and>
         (idxOk (locIdx st) \<longrightarrow> idxOk (locIdx (fold visitSample es st)))"
proof (induction es arbitrary: st)
  case Nil
  show ?case by (intro exI [of _ "[]"]) (simp add: locTable_def)
next
  case (Cons e es)
  let ?s1 = "visitSample e st"
  let ?s2 = "fold visitSample es ?s1"
  from visitSample_step [of e st] obtain e1 where
    s1: "locIdx ?s1 = locIdx st @ e1"
      "\<forall>a \<in> set (locations (fst e)). map_of (locIdx ?s1) a \<noteq> None"
      "prof ?s1 = (prof st)\<lparr>Location := Location (prof st) @ locTable (Mapping (prof st)) e1,
                     Sample := Sample (prof st) @ [emitSample (locIdx ?s1) e]\<rparr>"
      "idxOk (locIdx st) \<longrightarrow> idxOk (locIdx ?s1)"
    by blast
  from Cons.IH [of ?s1] obtain e2 where
    s2: "locIdx ?s2 = locIdx ?s1 @ e2"
      "\<forall>x \<in> set es. \<forall>a \<in> set (locations (fst x)). map_of (locIdx ?s2) a \<noteq> None"
      "prof ?s2 = (prof ?s1)\<lparr>Location := Location (prof ?s1) @ locTable (Mapping (prof ?s1)) e2,
                     Sample := Sample (prof ?s1) @ map (emitSample (locIdx ?s2)) es\<rparr>"
      "idxOk (locIdx ?s1) \<longrightarrow> idxOk (locIdx ?s2)"
    by blast
  have em: "emitSample (locIdx ?s2) e = emitSample (locIdx ?s1) e"
    unfolding s2(1) by (rule emitSample_append) (rule s1(2))
  have dom_e: "\<forall>a \<in> set (locations (fst e)). map_of (locIdx ?s2) a \<noteq> None"
    unfolding s2(1) using s1(2) by (simp add: map_of_append_dom del: map_of_append)
  have "locIdx ?s2 = locIdx st @ (e1 @ e2)" using s1(1) s2(1) by simp
  moreover have "\<forall>x \<in> set (e # es). \<forall>a \<in> set (locations (fst x)). map_of (locIdx ?s2) a \<noteq> None"
    using dom_e s2(2) by simp
  moreover have "prof ?s2 =
      (prof st)\<lparr>Location := Location (prof st) @ locTable (Mapping (prof st)) (e1 @ e2),
                Sample := Sample (prof st) @ map (emitSample (locIdx ?s2)) (e # es)\<rparr>"
    unfolding s2(3) s1(3) by (simp add: locTable_append em)
  moreover have "idxOk (locIdx st) \<longrightarrow> idxOk (locIdx ?s2)"
    using s1(4) s2(4) by blast
  ultimately show ?case
    by (intro exI [of _ "e1 @ e2"]) simp
qed

text \<open>
  What \<open>build\<close> returns: the builder's profile with a location entry for every address
  of the final address table appended, and one sample for every entry of the map, in the
  order of the visit.
\<close>

lemma buildLoop_idxOk: "idxOk (locIdx (buildLoop es b))"
  using fold_visitSample [of es "\<lparr>locIdx = [], prof = b\<lparr>Sample := []\<rparr>, locs = []\<rparr>"]
  by (auto simp: buildLoop_def idxOk_def)

lemma buildLoop_dom:
  "e \<in> set es \<Longrightarrow> a \<in> set (locations (fst e)) \<Longrightarrow> map_of (locIdx (buildLoop es b)) a \<noteq> None"
  using fold_visitSample [of es "\<lparr>locIdx = [], prof = b\<lparr>Sample := []\<rparr>, locs = []\<rparr>"]
  unfolding buildLoop_def by blast

lemma build_eq:
  "build es b =
     b\<lparr>Location := Location b @ locTable (Mapping b) (locIdx (buildLoop es b)),
       Sample := map (emitSample (locIdx (buildLoop es b))) es\<rparr>"
proof -
  let ?s0 = "\<lparr>locIdx = [], prof = b\<lparr>Sample := []\<rparr>, locs = []\<rparr>"
  from fold_visitSample [of es ?s0] obtain ext where
    e: "locIdx (fold visitSample es ?s0) = locIdx ?s0 @ ext"
       "prof (fold visitSample es ?s0) =
          (prof ?s0)\<lparr>Location := Location (prof ?s0) @ locTable (Mapping (prof ?s0)) ext,
                     Sample := Sample (prof ?s0) @
                       map (emitSample (locIdx (fold visitSample es ?s0))) es\<rparr>"
    by blast
  from e(1) have "ext = locIdx (fold visitSample es ?s0)" by simp
  with e(2) show ?thesis
    by (simp add: build_def buildLoop_def)
qed

text \<open>The mapping table: ids are positions plus one, and the builder starts without locations.\<close>

lemma addMappingEntry_tables:
  "\<exists>m. Mapping (addMappingEntry lo hi off fname buildID fake b) = Mapping b @ [m] \<and>
       Mapping_Id m = Suc (length (Mapping b)) \<and>
       Location (addMappingEntry lo hi off fname buildID fake b) = Location b"
  by (cases fake) (simp_all add: addMappingEntry_def addString_def Let_def)

lemma addMappingEntry_ids:
  assumes "map Mapping_Id (Mapping b) = [1 ..< Suc (length (Mapping b))]"
  shows "map Mapping_Id (Mapping (addMappingEntry lo hi off fname buildID fake b)) =
           [1 ..< Suc (length (Mapping (addMappingEntry lo hi off fname buildID fake b)))]"
proof -
  from addMappingEntry_tables [of lo hi off fname buildID fake b] obtain m where
    "Mapping (addMappingEntry lo hi off fname buildID fake b) = Mapping b @ [m]"
    "Mapping_Id m = Suc (length (Mapping b))"
    by blast
  with assms show ?thesis by simp
qed

lemma fold_addMapping_tables:
  "map Mapping_Id (Mapping b) = [1 ..< Suc (length (Mapping b))] \<Longrightarrow>
   map Mapping_Id (Mapping (fold (\<lambda>(lo, hi, offset, file, buildID).
       addMapping lo hi offset file buildID) regions b)) =
     [1 ..< Suc (length (Mapping (fold (\<lambda>(lo, hi, offset, file, buildID).
       addMapping lo hi offset file buildID) regions b)))] \<and>
   Location (fold (\<lambda>(lo, hi, offset, file, buildID).
       addMapping lo hi offset file buildID) regions b) = Location b"
proof (induction regions arbitrary: b)
  case Nil
  then show ?case by simp
next
  case (Cons r regions)
  obtain lo hi off fname buildID where r: "r = (lo, hi, off, fname, buildID)"
    by (cases r) auto
  let ?b1 = "addMapping lo hi off fname buildID b"
  have ids: "map Mapping_Id (Mapping ?b1) = [1 ..< Suc (length (Mapping ?b1))]"
    unfolding addMapping_def by (rule addMappingEntry_ids) (rule Cons.prems)
  have loc: "Location ?b1 = Location b"
    unfolding addMapping_def using addMappingEntry_tables [of lo hi off fname buildID False b]
    by blast
  from Cons.IH [OF ids] loc show ?case by (simp add: r)
qed

lemma newProfileBuilder_tables:
  "map Mapping_Id (Mapping (newProfileBuilder ts dur regions)) =
     [1 ..< Suc (length (Mapping (newProfileBuilder ts dur regions)))] \<and>
   Location (newProfileBuilder ts dur regions) = []"
proof (cases "regions = []")
  case True
  then show ?thesis
    by (simp add: newProfileBuilder_def readMapping_def addMappingEntry_def)
next
  case False
  let ?b0 = "\<lparr>StringTable = ['''', ''reads'', ''count'', ''read'', ''bytes''],
        Mapping = [], Location = [], Sample = [],
        DurationNanos = dur, TimeNanos = ts, Period = 1,
        PeriodType = \<lparr>Type = 1, Unit = 2\<rparr>,
        SampleType = [\<lparr>Type = 1, Unit = 2\<rparr>, \<lparr>Type = 3, Unit = 4\<rparr>]\<rparr>"
  have "map Mapping_Id (Mapping ?b0) = [1 ..< Suc (length (Mapping ?b0))]" by simp
  from fold_addMapping_tables [OF this, of regions] False show ?thesis
    by (simp add: newProfileBuilder_def readMapping_def)
qed

text \<open>The scan returns 0 or the position plus one of a mapping that contains the address.\<close>

lemma findMapping_result:
  "findMapping ms i addr = 0 \<or>
   (i < findMapping ms i addr \<and> findMapping ms i addr \<le> length ms \<and>
    MemoryStart (ms ! (findMapping ms i addr - 1)) \<le> addr \<and>
    addr < MemoryLimit (ms ! (findMapping ms i addr - 1)))"
proof (induction ms i addr rule: findMapping.induct)
  case (1 ms i addr)
  show ?case
  proof (cases "i < length ms")
    case False
    then show ?thesis by (simp add: findMapping.simps [of ms i addr])
  next
    case True
    show ?thesis
    proof (cases "MemoryStart (ms ! i) \<le> addr \<and> addr < MemoryLimit (ms ! i)")
      case hit: True
      with True show ?thesis by (simp add: findMapping.simps [of ms i addr])
    next
      case miss: False
      with True have eq: "findMapping ms i addr = findMapping ms (i + 1) addr"
        by (auto simp: findMapping.simps [of ms i addr])
      from "1.IH" [OF True miss] show ?thesis
        unfolding eq by auto
    qed
  qed
qed

lemma findMapping_id:
  assumes ids: "map Mapping_Id ms = [1 ..< Suc (length ms)]"
    and nz: "findMapping ms 0 addr \<noteq> 0"
  shows "\<exists>m \<in> set ms. Mapping_Id m = findMapping ms 0 addr"
proof -
  let ?j = "findMapping ms 0 addr"
  from findMapping_result [of ms 0 addr] nz have j: "0 < ?j" "?j \<le> length ms" by auto
  then have lt: "?j - 1 < length ms" by simp
  have "Mapping_Id (ms ! (?j - 1)) = map Mapping_Id ms ! (?j - 1)"
    using lt by simp
  also have "\<dots> = [1 ..< Suc (length ms)] ! (?j - 1)" by (simp only: ids)
  also have "\<dots> = ?j" using j lt by (simp add: nth_upt del: upt_Suc)
  finally have "Mapping_Id (ms ! (?j - 1)) = ?j" .
  moreover have "ms ! (?j - 1) \<in> set ms" using lt by simp
  ultimately show ?thesis by blast
qed

text \<open>
  Claim C5. In the profile that \<open>build\<close> makes from a new builder, for every sample map
  (in whatever order it is visited) and whatever code regions are known: every location
  id in the \<open>LocationIndex\<close> of a sample is the id of an entry of the location table,
  and the \<open>MappingIndex\<close> of every location entry is 0 or the id of an entry of the
  mapping table.
\<close>

theorem build_referential_integrity:
  "(\<forall>s \<in> set (Sample (build entries (newProfileBuilder ts dur regions))).
      \<forall>i \<in> set (LocationIndex s).
        \<exists>l \<in> set (Location (build entries (newProfileBuilder ts dur regions))).
          Location_Id l = i) \<and>
   (\<forall>l \<in> set (Location (build entries (newProfileBuilder ts dur regions))).
      MappingIndex l \<noteq> 0 \<longrightarrow>
        (\<exists>m \<in> set (Mapping (build entries (newProfileBuilder ts dur regions))).
           Mapping_Id m = MappingIndex l))"
proof -
  let ?b = "newProfileBuilder ts dur regions"
  let ?ix = "locIdx (buildLoop entries ?b)"
  note tb = newProfileBuilder_tables [of ts dur regions]
  have S: "Sample (build entries ?b) = map (emitSample ?ix) entries"
    and L: "Location (build entries ?b) = locTable (Mapping ?b) ?ix"
    and M: "Mapping (build entries ?b) = Mapping ?b"
    using tb by (simp_all add: build_eq [of entries ?b])
  have 1: "\<forall>s \<in> set (Sample (build entries ?b)). \<forall>i \<in> set (LocationIndex s).
             \<exists>l \<in> set (Location (build entries ?b)). Location_Id l = i"
  proof (intro ballI)
    fix s i
    assume "s \<in> set (Sample (build entries ?b))" and i: "i \<in> set (LocationIndex s)"
    then obtain e where e: "e \<in> set entries" "s = emitSample ?ix e"
      unfolding S by auto
    from i e(2) obtain a where a: "a \<in> set (locations (fst e))" "i = the (map_of ?ix a)"
      by (auto simp: emitSample_def)
    from buildLoop_dom [OF e(1) a(1), of ?b] a(2) have "map_of ?ix a = Some i" by auto
    then have "(a, i) \<in> set ?ix" by (rule map_of_SomeD)
    then have "\<lparr>Location_Id = i, MappingIndex = findMapping (Mapping ?b) 0 a, Address = a\<rparr>
                 \<in> set (locTable (Mapping ?b) ?ix)"
      by (force simp: locTable_def)
    then show "\<exists>l \<in> set (Location (build entries ?b)). Location_Id l = i"
      unfolding L by force
  qed
  have 2: "\<forall>l \<in> set (Location (build entries ?b)). MappingIndex l \<noteq> 0 \<longrightarrow>
             (\<exists>m \<in> set (Mapping (build entries ?b)). Mapping_Id m = MappingIndex l)"
  proof (intro ballI impI)
    fix l
    assume "l \<in> set (Location (build entries ?b))" and nz: "MappingIndex l \<noteq> 0"
    then obtain x where "l = \<lparr>Location_Id = snd x,
        MappingIndex = findMapping (Mapping ?b) 0 (fst x), Address = fst x\<rparr>"
      unfolding L by (auto simp: locTable_def)
    with nz have mi: "MappingIndex l = findMapping (Mapping ?b) 0 (fst x)"
      and "findMapping (Mapping ?b) 0 (fst x) \<noteq> 0" by simp_all
    from findMapping_id [OF conjunct1 [OF tb] this(2)] mi
    show "\<exists>m \<in> set (Mapping (build entries ?b)). Mapping_Id m = MappingIndex l"
      unfolding M by simp
  qed
  from 1 2 show ?thesis by (rule conjI)
qed

theorem build_referential_integrity_witness:
  "(\<exists>l \<in> set (Location (build [(captureKey 100 [5, 6], 1, 100)]
                           (newProfileBuilder 0 0 [(4, 6, 0, ''a'', ''b'')]))).
      Location_Id l = 2) \<and>
   (\<exists>m \<in> set (Mapping (build [(captureKey 100 [5, 6], 1, 100)]
                          (newProfileBuilder 0 0 [(4, 6, 0, ''a'', ''b'')]))).
      Mapping_Id m = 1)"
proof -
  let ?pr = "build [(captureKey 100 [5, 6], 1, 100)] (newProfileBuilder 0 0 [(4, 6, 0, ''a'', ''b'')])"
  let ?s = "\<lparr>LocationIndex = 1 # 2 # replicate 126 3, Value = [1, 100],
             Label = [\<lparr>Key = 4, Num = 128\<rparr>]\<rparr>"
  let ?l = "\<lparr>Location_Id = 1, MappingIndex = 1, Address = 5\<rparr>"
  have S: "Sample ?pr = [?s]" by code_simp
  have L: "Location ?pr =
      [?l, \<lparr>Location_Id = 2, MappingIndex = 0, Address = 6\<rparr>,
       \<lparr>Location_Id = 3, MappingIndex = 0, Address = 0\<rparr>]"
    by code_simp
  have s: "?s \<in> set (Sample ?pr)" unfolding S by simp
  have i: "2 \<in> set (LocationIndex ?s)" by simp
  have l: "?l \<in> set (Location ?pr)" unfolding L by simp
  have nz: "MappingIndex ?l \<noteq> 0" by simp
  note T = build_referential_integrity
    [of "[(captureKey 100 [5, 6], 1, 100)]" 0 0 "[(4, 6, 0, ''a'', ''b'')]"]
  from T s i have 1: "\<exists>l \<in> set (Location ?pr). Location_Id l = 2" by blast
  from T l nz have "\<exists>m \<in> set (Mapping ?pr). Mapping_Id m = MappingIndex ?l" by blast
  then have 2: "\<exists>m \<in> set (Mapping ?pr). Mapping_Id m = 1" by simp
  from 1 2 show ?thesis by (rule conjI)
qed

lemma build_all_slots:
  "map (\<lambda>s. length (LocationIndex s)) (Sample (build es b)) =
   map (\<lambda>e. length (locations (fst e))) es"
  by (simp add: build_eq [of es b] emitSample_def o_def)

lemma captureKey_slots: "length (locations (captureKey sz callers)) = 128"
  by (simp add: captureKey_def)

text \<open>
  Claim C3, as the code has it. The loop of \<open>build\<close> ranges over the whole array of the
  key and never reads \<open>numLocations\<close>: every sample has as many location ids as its key
  has slots, which is 128 for every key that \<open>recordSample\<close> makes. At the key of a call
  whose stack is the single address 5, with \<open>numLocations = 1\<close> and 127 zero slots after
  the first, the sample has 128 location ids: the id of address 5 and then 127 times the
  id of a location entry made for address 0. The claim asks for the ids of the first
  \<open>numLocations\<close> slots only, here the one id 1.
\<close>

theorem build_emits_ids_for_zero_slots:
  "map (\<lambda>s. length (LocationIndex s)) (Sample (build es b)) =
     map (\<lambda>e. length (locations (fst e))) es \<and>
   length (locations (captureKey sz callers)) = 128 \<and>
   numLocations (captureKey 4096 [5]) = 1 \<and>
   locations (captureKey 4096 [5]) = 5 # replicate 127 0 \<and>
   Sample (build [(captureKey 4096 [5], 1, 4096)] (newProfileBuilder 0 0 [])) =
     [\<lparr>LocationIndex = 1 # replicate 127 2, Value = [1, 4096],
       Label = [\<lparr>Key = 4, Num = 4096\<rparr>]\<rparr>] \<and>
   Location (build [(captureKey 4096 [5], 1, 4096)] (newProfileBuilder 0 0 [])) =
     [\<lparr>Location_Id = 1, MappingIndex = 1, Address = 5\<rparr>,
      \<lparr>Location_Id = 2, MappingIndex = 1, Address = 0\<rparr>]"
proof -
  have 1: "numLocations (captureKey 4096 [5]) = 1" by code_simp
  have 2: "locations (captureKey 4096 [5]) = 5 # replicate 127 0" by code_simp
  have 3: "Sample (build [(captureKey 4096 [5], 1, 4096)] (newProfileBuilder 0 0 [])) =
     [\<lparr>LocationIndex = 1 # replicate 127 2, Value = [1, 4096],
       Label = [\<lparr>Key = 4, Num = 4096\<rparr>]\<rparr>]"
    by code_simp
  have 4: "Location (build [(captureKey 4096 [5], 1, 4096)] (newProfileBuilder 0 0 [])) =
     [\<lparr>Location_Id = 1, MappingIndex = 1, Address = 5\<rparr>,
      \<lparr>Location_Id = 2, MappingIndex = 1, Address = 0\<rparr>]"
    by code_simp
  from build_all_slots [of es b] captureKey_slots [of sz callers] 1 2 3 4
  show ?thesis by (intro conjI)
qed

lemma fake_mapping_range:
  "findMapping (Mapping (newProfileBuilder ts dur [])) 0 a =
     (if a < 9223372036854775808 then 1 else 0)"
  by (simp add: newProfileBuilder_def readMapping_def addMappingEntry_def
        findMapping.simps [of _ 0 a] findMapping.simps [of _ "Suc 0" a])

text \<open>
  Claim C6, as the code has it. With no known region the mapping table is the one
  synthetic mapping, with \<open>MemoryStart = 0\<close> and \<open>MemoryLimit = 1 << 63 = 2^63\<close>, which
  is not the largest address \<open>2^64 - 1\<close>. The scan needs \<open>addr < MemoryLimit\<close>: an address
  below \<open>2^63\<close> resolves to mapping 1, every address from \<open>2^63\<close> on to no mapping. A key
  that holds the address \<open>2^63\<close> gets a location entry whose \<open>MappingIndex\<close> is 0.
\<close>

theorem fake_mapping_stops_at_half:
  "findMapping (Mapping (newProfileBuilder ts dur [])) 0 a =
     (if a < 9223372036854775808 then 1 else 0) \<and>
   Mapping (newProfileBuilder 0 0 []) =
     [\<lparr>Mapping_Id = 1, MemoryStart = 0, MemoryLimit = 9223372036854775808,
       FileOffset = 0, Filename = 0, BuildId = 0\<rparr>] \<and>
   (9223372036854775808 :: uint64) \<noteq> 18446744073709551615 \<and>
   hd (Location (build [(captureKey 4096 [9223372036854775808], 1, 4096)]
                  (newProfileBuilder 0 0 []))) =
     \<lparr>Location_Id = 1, MappingIndex = 0, Address = 9223372036854775808\<rparr> \<and>
   findMapping (Mapping (newProfileBuilder 0 0 [])) 0 18446744073709551615 = 0 \<and>
   findMapping (Mapping (newProfileBuilder 0 0 [])) 0 9223372036854775807 = 1"
proof -
  have 1: "Mapping (newProfileBuilder 0 0 []) =
     [\<lparr>Mapping_Id = 1, MemoryStart = 0, MemoryLimit = 9223372036854775808,
       FileOffset = 0, Filename = 0, BuildId = 0\<rparr>]"
    by code_simp
  have 2: "(9223372036854775808 :: uint64) \<noteq> 18446744073709551615" by simp
  have 3: "hd (Location (build [(captureKey 4096 [9223372036854775808], 1, 4096)]
                  (newProfileBuilder 0 0 []))) =
     \<lparr>Location_Id = 1, MappingIndex = 0, Address = 9223372036854775808\<rparr>"
    by code_simp
  have 4: "findMapping (Mapping (newProfileBuilder 0 0 [])) 0 18446744073709551615 = 0"
    by code_simp
  have 5: "findMapping (Mapping (newProfileBuilder 0 0 [])) 0 9223372036854775807 = 1"
    by code_simp
  from fake_mapping_range [of ts dur a] 1 2 3 4 5 show ?thesis by (intro conjI)
qed

section \<open>Runs of the accumulator\<close>

text \<open>After a run of calls on a running profiler, each entry has grown by the calls of its key.\<close>

lemma recordSamples_running:
  assumes "startTime p \<noteq> 0" and "samples p = Some m"
  shows "\<exists>m'. recordSamples evs p = Inr (p\<lparr>samples := Some m'\<rparr>) \<and>
           (\<forall>k. sampleAt m' k =
              (fst (sampleAt m k) + of_nat (length (filter (\<lambda>e. eventKey e = k) evs)),
               snd (sampleAt m k) + sum_list (map fst (filter (\<lambda>e. eventKey e = k) evs)))) \<and>
           fst ` set m' = fst ` set m \<union> eventKey ` set evs \<and>
           (distinct (map fst m) \<longrightarrow> distinct (map fst m'))"
  using assms
proof (induction evs arbitrary: p m)
  case Nil
  then show ?case by (intro exI [of _ m]) simp
next
  case (Cons e evs)
  let ?k = "captureKey (fst e) (snd e)"
  let ?m1 = "AList.update ?k (fst (sampleAt m ?k) + 1, snd (sampleAt m ?k) + fst e) m"
  let ?p1 = "p\<lparr>samples := Some ?m1\<rparr>"
  have r: "recordSample (fst e) (snd e) p = Inr ?p1"
    by (rule recordSample_running_eq [OF Cons.prems])
  have p1: "startTime ?p1 \<noteq> 0" "samples ?p1 = Some ?m1"
    using Cons.prems(1) by simp_all
  from Cons.IH [OF p1] obtain m' where
    m': "recordSamples evs ?p1 = Inr (?p1\<lparr>samples := Some m'\<rparr>)"
      "\<forall>k. sampleAt m' k =
              (fst (sampleAt ?m1 k) + of_nat (length (filter (\<lambda>e. eventKey e = k) evs)),
               snd (sampleAt ?m1 k) + sum_list (map fst (filter (\<lambda>e. eventKey e = k) evs)))"
      "fst ` set m' = fst ` set ?m1 \<union> eventKey ` set evs"
      "distinct (map fst ?m1) \<longrightarrow> distinct (map fst m')"
    by blast
  have ek: "eventKey e = ?k" by (simp add: eventKey_def)
  have 1: "recordSamples (e # evs) p = Inr (p\<lparr>samples := Some m'\<rparr>)"
    using r m'(1) by simp
  have 2: "\<forall>k. sampleAt m' k =
              (fst (sampleAt m k) + of_nat (length (filter (\<lambda>e. eventKey e = k) (e # evs))),
               snd (sampleAt m k) + sum_list (map fst (filter (\<lambda>e. eventKey e = k) (e # evs))))"
  proof
    fix k
    show "sampleAt m' k =
              (fst (sampleAt m k) + of_nat (length (filter (\<lambda>e. eventKey e = k) (e # evs))),
               snd (sampleAt m k) + sum_list (map fst (filter (\<lambda>e. eventKey e = k) (e # evs))))"
      using m'(2) [rule_format, of k] ek
      by (cases "k = ?k") (simp_all add: sampleAt_update algebra_simps)
  qed
  have 3: "fst ` set m' = fst ` set m \<union> eventKey ` set (e # evs)"
    using m'(3) ek by (simp add: dom_update)
  have 4: "distinct (map fst m) \<longrightarrow> distinct (map fst m')"
    using m'(4) by (simp add: distinct_update)
  from 1 2 3 4 show ?case by blast
qed

lemma sum_list_const_word:
  fixes c :: "'a :: semiring_1"
  shows "\<forall>x \<in> set xs. f x = c \<Longrightarrow> sum_list (map f xs) = of_nat (length xs) * c"
  by (induction xs) (simp_all add: algebra_simps)

lemma sampleAt_in_map:
  assumes "k \<in> fst ` set m"
  shows "map_of m k = Some (sampleAt m k)"
proof -
  from assms have "map_of m k \<noteq> None" by (simp add: map_of_eq_None_iff)
  then show ?thesis by (auto simp: sampleAt_def)
qed

text \<open>A visit of the map in any order meets every key once.\<close>

lemma visit_order:
  assumes perm: "mset es = mset m" and d: "distinct (map fst m)" and k: "k \<in> fst ` set m"
  shows "filter (\<lambda>e. fst e = k) es = [(k, sampleAt m k)]"
proof -
  from perm have "mset (map fst es) = mset (map fst m)" by simp
  with d have des: "distinct (map fst es)" by (metis distinct_count_atmost_1 mset_eq_setD set_mset_mset)
  from perm have se: "set es = set m" by (rule mset_eq_setD)
  from sampleAt_in_map [OF k] have "(k, sampleAt m k) \<in> set m" by (rule map_of_SomeD)
  with se have mem: "(k, sampleAt m k) \<in> set es" by simp
  from des mem show ?thesis
  proof (induction es)
    case Nil
    then show ?case by simp
  next
    case (Cons x es)
    show ?case
    proof (cases "x = (k, sampleAt m k)")
      case True
      from Cons.prems(1) True have "k \<notin> fst ` set es" by simp
      then have "filter (\<lambda>e. fst e = k) es = []"
        by (auto simp: filter_empty_conv)
      with True show ?thesis by simp
    next
      case False
      with Cons.prems(2) have in_es: "(k, sampleAt m k) \<in> set es" by simp
      then have "k \<in> fst ` set es" by force
      with Cons.prems(1) have "fst x \<noteq> k" by auto
      moreover from Cons.prems(1) have "distinct (map fst es)" by simp
      ultimately show ?thesis using Cons.IH in_es by simp
    qed
  qed
qed

text \<open>The same from the empty map that \<open>Start\<close> installs.\<close>

lemma recordSamples_fresh:
  assumes "startTime p \<noteq> 0" and "samples p = Some []"
  obtains m where "recordSamples evs p = Inr (p\<lparr>samples := Some m\<rparr>)"
    and "\<And>k. sampleAt m k =
           (of_nat (length (filter (\<lambda>e. eventKey e = k) evs)),
            sum_list (map fst (filter (\<lambda>e. eventKey e = k) evs)))"
    and "fst ` set m = eventKey ` set evs"
    and "distinct (map fst m)"
proof -
  from recordSamples_running [OF assms, of evs] obtain m where
    m: "recordSamples evs p = Inr (p\<lparr>samples := Some m\<rparr>) \<and>
      (\<forall>k. sampleAt m k =
         (fst (sampleAt [] k) + of_nat (length (filter (\<lambda>e. eventKey e = k) evs)),
          snd (sampleAt [] k) + sum_list (map fst (filter (\<lambda>e. eventKey e = k) evs)))) \<and>
      fst ` set m = fst ` set ([] :: sampleMap) \<union> eventKey ` set evs \<and>
      (distinct (map fst ([] :: sampleMap)) \<longrightarrow> distinct (map fst m))"
    ..
  show thesis
  proof (rule that [of m])
    show "recordSamples evs p = Inr (p\<lparr>samples := Some m\<rparr>)" using m by (rule conjunct1)
    show "sampleAt m k =
           (of_nat (length (filter (\<lambda>e. eventKey e = k) evs)),
            sum_list (map fst (filter (\<lambda>e. eventKey e = k) evs)))" for k
      using m [THEN conjunct2, THEN conjunct1, rule_format, of k] by (simp add: sampleAt_def)
    show "fst ` set m = eventKey ` set evs"
      using m [THEN conjunct2, THEN conjunct2, THEN conjunct1] by simp
    show "distinct (map fst m)"
      using m [THEN conjunct2, THEN conjunct2, THEN conjunct2] by simp
  qed
qed

section \<open>Reading the samples back\<close>

lemma idxOk_distinct_ids: "idxOk ix \<Longrightarrow> distinct (map snd ix)"
  by (simp add: idxOk_def del: upt_Suc)

lemma find_locTable:
  "distinct (map snd ix) \<Longrightarrow> (a, i) \<in> set ix \<Longrightarrow>
   find (\<lambda>l. Location_Id l = i) (locTable ms ix) =
     Some \<lparr>Location_Id = i, MappingIndex = findMapping ms 0 a, Address = a\<rparr>"
proof (induction ix)
  case Nil
  then show ?case by simp
next
  case (Cons x ix)
  show ?case
  proof (cases "snd x = i")
    case True
    with Cons.prems have "x = (a, i)" by (cases x) force
    then show ?thesis by (simp add: locTable_def)
  next
    case False
    with Cons.prems have "(a, i) \<in> set ix" "distinct (map snd ix)" by auto
    from Cons.IH [OF this(2,1)] False show ?thesis by (simp add: locTable_def)
  qed
qed

text \<open>
  In the profile built from a builder without locations, the ids of a sample resolve to
  the addresses of all the slots of its key, in order.
\<close>

lemma build_sampleStack:
  assumes "Location b = []" and "e \<in> set es"
  shows "sampleStack (build es b) (emitSample (locIdx (buildLoop es b)) e) =
           map Some (locations (fst e))"
proof -
  let ?ix = "locIdx (buildLoop es b)"
  have L: "Location (build es b) = locTable (Mapping b) ?ix"
    using assms(1) by (simp add: build_eq [of es b])
  have d: "distinct (map snd ?ix)" by (rule idxOk_distinct_ids) (rule buildLoop_idxOk)
  have "map (locationAddress (build es b)) (map (\<lambda>a. the (map_of ?ix a)) (locations (fst e))) =
        map Some (locations (fst e))"
    unfolding map_map
  proof (rule map_cong [OF refl])
    fix a assume a: "a \<in> set (locations (fst e))"
    from buildLoop_dom [OF assms(2) a, of b] obtain i where i: "map_of ?ix a = Some i" by auto
    then have "(a, i) \<in> set ?ix" by (rule map_of_SomeD)
    from find_locTable [OF d this, of "Mapping b"] i
    show "(locationAddress (build es b) \<circ> (\<lambda>a. the (map_of ?ix a))) a = Some a"
      by (simp add: locationAddress_def L)
  qed
  then show ?thesis by (simp add: sampleStack_def emitSample_def)
qed

lemma Stop_running:
  assumes "startTime p \<noteq> 0" and "samples p = Some m"
  shows "Stop now regions rangeOrder p =
           (Inr (build (rangeOrder m) (newProfileBuilder (startTime p) (now - startTime p) regions)),
            p\<lparr>startTime := 0\<rparr>)"
  using assms by (simp add: Stop_def Let_def)

text \<open>Bucket labels of exponents up to 63 are distinct.\<close>

lemma unat_pow2_64:
  assumes "i < 64" shows "unat (2 ^ i :: 64 word) = 2 ^ i"
proof -
  have "unat (push_bit i 1 :: 64 word) = take_bit LENGTH(64) (push_bit i (unat (1 :: 64 word)))"
    by (rule unsigned_push_bit_eq)
  moreover have "(2::nat) ^ i < 2 ^ 64" by (rule power_strict_increasing) (use assms in auto)
  ultimately show ?thesis using assms by (simp add: take_bit_nat_eq_self)
qed

lemma label_inj:
  fixes a b :: uint8
  assumes "unat a \<le> 63" and "unat b \<le> 63"
    and "(push_bit (unat a) 1 :: int64) = push_bit (unat b) 1"
  shows "a = b"
proof -
  from assms(3) have "(2 ^ unat a :: 64 word) = 2 ^ unat b" by simp
  then have "unat (2 ^ unat a :: 64 word) = unat (2 ^ unat b :: 64 word)" by simp
  with assms(1,2) have "(2::nat) ^ unat a = 2 ^ unat b" by (simp add: unat_pow2_64)
  then have "unat a = unat b" by simp
  then show ?thesis by (simp only: word_unat_eq_iff)
qed

text \<open>
  A key made from a stack without zero addresses is determined by its array and its
  bucket label: the zero fill starts where the stack ends.
\<close>

lemma zero_fill_prefix:
  assumes "(0 :: uintptr) \<notin> set xs" and "0 \<notin> set ys"
    and "xs @ replicate n 0 = ys @ replicate k 0"
  shows "xs = ys"
proof -
  have "takeWhile (\<lambda>x. x \<noteq> 0) (xs @ replicate n 0) = xs"
    if "0 \<notin> set xs" for xs :: "uintptr list" and n
  proof -
    from that have all: "\<forall>x \<in> set xs. x \<noteq> 0" by auto
    have "takeWhile (\<lambda>x. x \<noteq> 0) (replicate n (0 :: uintptr)) = []"
      by (cases n) simp_all
    with all show ?thesis by (simp add: takeWhile_append2)
  qed
  from this [OF assms(1), of n] this [OF assms(2), of k] assms(3) show ?thesis by simp
qed

lemma captureKey_determined:
  assumes "0 \<notin> set c1" and "0 \<notin> set c2"
    and "locations (captureKey s1 c1) = locations (captureKey s2 c2)"
    and "(push_bit (unat (sizeBucketPower (captureKey s1 c1))) 1 :: int64) =
         push_bit (unat (sizeBucketPower (captureKey s2 c2))) 1"
  shows "captureKey s1 c1 = captureKey s2 c2"
proof -
  have z1: "0 \<notin> set (take 128 c1)" using assms(1) by (auto dest: in_set_takeD)
  have z2: "0 \<notin> set (take 128 c2)" using assms(2) by (auto dest: in_set_takeD)
  from assms(3) have "take 128 c1 @ replicate (128 - length c1) 0 =
      take 128 c2 @ replicate (128 - length c2) 0"
    by (simp add: captureKey_def)
  from zero_fill_prefix [OF z1 z2 this] have t: "take 128 c1 = take 128 c2" .
  then have "length (take 128 c1) = length (take 128 c2)" by simp
  then have n: "min 128 (length c1) = min 128 (length c2)" by (simp add: min.commute)
  have b1: "unat (nextPowerOfTwo s1) \<le> 63" and b2: "unat (nextPowerOfTwo s2) \<le> 63"
    using nextPowerOfTwo_least by blast+
  from assms(4) have "(push_bit (unat (nextPowerOfTwo s1)) 1 :: int64) =
      push_bit (unat (nextPowerOfTwo s2)) 1"
    by (simp add: captureKey_def)
  from label_inj [OF b1 b2 this] have p: "nextPowerOfTwo s1 = nextPowerOfTwo s2" .
  from assms(3) n p show ?thesis by (simp add: captureKey_def)
qed

lemma sint_of_nat_64:
  assumes "n < 2 ^ 63" shows "sint (of_nat n :: 64 word) = int n"
proof -
  have "sint (word_of_int (int n) :: 64 word) = signed_take_bit (LENGTH(64) - 1) (int n)"
    by (rule sint_sbintrunc')
  then have "sint (of_nat n :: 64 word) = signed_take_bit 63 (int n)" by simp
  also have "\<dots> = int n"
  proof (rule signed_take_bit_int_eq_self)
    have "- ((2::int) ^ 63) \<le> 0" by simp
    also have "(0::int) \<le> int n" by simp
    finally show "- ((2::int) ^ 63) \<le> int n" .
    from assms have "int n < int (2 ^ 63)" by (simp only: of_nat_less_iff)
    then show "int n < 2 ^ 63" by simp
  qed
  finally show ?thesis .
qed

text \<open>
  The samples of the profile that \<open>Stop\<close> builds for a stack and a bucket label: those
  whose location ids resolve to the addresses of the key and whose label is the bucket's.
\<close>

lemma samples_of_key:
  assumes perm: "mset es = mset m" and d: "distinct (map fst m)"
    and keys: "fst ` set m = eventKey ` set evs"
    and pcs: "\<forall>e \<in> set evs. 0 \<notin> set (snd e)"
    and ev: "ev \<in> set evs"
    and loc: "Location b = []"
  shows "filter (\<lambda>s. sampleStack (build es b) s = map Some (locations (eventKey ev)) \<and>
                    Label s = [\<lparr>Key = 4, Num = push_bit (unat (sizeBucketPower (eventKey ev))) 1\<rparr>])
           (Sample (build es b)) =
         [emitSample (locIdx (buildLoop es b)) (eventKey ev, sampleAt m (eventKey ev))]"
proof -
  let ?ix = "locIdx (buildLoop es b)"
  let ?K = "eventKey ev"
  let ?P = "\<lambda>s. sampleStack (build es b) s = map Some (locations ?K) \<and>
                 Label s = [\<lparr>Key = 4, Num = push_bit (unat (sizeBucketPower ?K)) 1\<rparr>]"
  have S: "Sample (build es b) = map (emitSample ?ix) es"
    by (simp add: build_eq [of es b])
  from perm have se: "set es = set m" by (rule mset_eq_setD)
  have K: "?K \<in> fst ` set m" using keys ev by blast
  have iff: "?P (emitSample ?ix e) \<longleftrightarrow> fst e = ?K" if e: "e \<in> set es" for e
  proof
    assume fe: "fst e = ?K"
    from build_sampleStack [OF loc e] fe show "?P (emitSample ?ix e)"
      by (simp add: emitSample_def)
  next
    assume P: "?P (emitSample ?ix e)"
    from build_sampleStack [OF loc e] P
    have "map Some (locations (fst e)) = map Some (locations ?K)" by simp
    then have l: "locations (fst e) = locations ?K"
      by (simp add: inj_map_eq_map)
    from P have lab: "(push_bit (unat (sizeBucketPower (fst e))) 1 :: int64) =
        push_bit (unat (sizeBucketPower ?K)) 1"
      by (simp add: emitSample_def)
    from e se have "fst e \<in> fst ` set m" by simp
    then have "fst e \<in> eventKey ` set evs" by (simp only: keys)
    then obtain ev' where ev': "ev' \<in> set evs" "fst e = eventKey ev'" by (rule imageE)
    from pcs ev ev'(1) have z: "0 \<notin> set (snd ev')" "0 \<notin> set (snd ev)" by simp_all
    from captureKey_determined [OF z, of "fst ev'" "fst ev"] l lab ev'(2)
    show "fst e = ?K" by (simp add: eventKey_def)
  qed
  have "filter ?P (Sample (build es b)) = map (emitSample ?ix) (filter (?P \<circ> emitSample ?ix) es)"
    unfolding S by (rule filter_map)
  also have "filter (?P \<circ> emitSample ?ix) es = filter (\<lambda>e. fst e = ?K) es"
    by (rule filter_cong [OF refl]) (simp only: o_def iff)
  also have "\<dots> = [(?K, sampleAt m ?K)]"
    by (rule visit_order [OF perm d K])
  finally show ?thesis by simp
qed

text \<open>
  Claim C1. A window is opened by \<open>Start\<close>, any run \<open>evs\<close> of calls is recorded, and
  \<open>Stop\<close> builds the profile, visiting the map in any order. If the calls of \<open>evs\<close> that
  have the key of (size 4096, stack \<open>stk\<close>) are \<open>N > 0\<close> calls of size 4096, wherever they
  stand among the other calls, then the profile has exactly one sample whose ids resolve
  to that stack (the slots of its key: the captured addresses and their zero fill) and
  whose label is the bucket 4096, and its values are the count \<open>N\<close> and the byte sum
  \<open>4096 * N\<close>. The values are \<open>int64\<close>, as the counters are: \<open>N\<close> and \<open>4096 * N\<close> in
  64-bit arithmetic, and the numbers \<open>N\<close> and \<open>4096 * N\<close> themselves as long as
  \<open>4096 * N\<close> fits, that is for \<open>N < 2^51\<close>. Return addresses are not 0, which tells
  the zero fill of a key from its stack.
\<close>

theorem aggregation_exact:
  fixes evs :: "(go_int \<times> uintptr list) list" and stk :: "uintptr list"
  assumes idle: "startTime p0 = 0" and clock: "now \<noteq> 0"
    and order: "\<And>m. mset (rangeOrder m) = mset m"
    and same: "\<forall>e \<in> set evs. eventKey e = captureKey 4096 stk \<longrightarrow> fst e = 4096"
    and count: "length (filter (\<lambda>e. eventKey e = captureKey 4096 stk) evs) = N"
    and pos: "0 < N"
    and pcs: "0 \<notin> set stk" "\<forall>e \<in> set evs. 0 \<notin> set (snd e)"
  shows "\<exists>p1 p2 pr s.
           Start now p0 = (None, p1) \<and> recordSamples evs p1 = Inr p2 \<and>
           Stop now' regions rangeOrder p2 = (Inr pr, p2\<lparr>startTime := 0\<rparr>) \<and>
           filter (\<lambda>s. sampleStack pr s = map Some (locations (captureKey 4096 stk)) \<and>
                       Label s = [\<lparr>Key = 4, Num = 4096\<rparr>]) (Sample pr) = [s] \<and>
           Value s = [of_nat N, 4096 * of_nat N] \<and>
           (N < 2 ^ 51 \<longrightarrow> map sint (Value s) = [int N, 4096 * int N])"
proof -
  let ?K = "captureKey 4096 stk"
  let ?p1 = "p0\<lparr>startTime := now, samples := Some []\<rparr>"
  have st: "Start now p0 = (None, ?p1)" using idle by (simp add: Start_def)
  have r1: "startTime ?p1 \<noteq> 0" "samples ?p1 = Some []" using clock by simp_all
  from recordSamples_fresh [OF r1, of evs] obtain m where
    m: "recordSamples evs ?p1 = Inr (?p1\<lparr>samples := Some m\<rparr>)"
      "\<And>k. sampleAt m k =
         (of_nat (length (filter (\<lambda>e. eventKey e = k) evs)),
          sum_list (map fst (filter (\<lambda>e. eventKey e = k) evs)))"
      "fst ` set m = eventKey ` set evs"
      "distinct (map fst m)"
    by blast
  let ?p2 = "?p1\<lparr>samples := Some m\<rparr>"
  let ?b = "newProfileBuilder (startTime ?p2) (now' - startTime ?p2) regions"
  let ?es = "rangeOrder m"
  let ?pr = "build ?es ?b"
  let ?s = "emitSample (locIdx (buildLoop ?es ?b)) (?K, sampleAt m ?K)"
  have r2: "startTime ?p2 \<noteq> 0" "samples ?p2 = Some m" using clock by simp_all
  have stop: "Stop now' regions rangeOrder ?p2 = (Inr ?pr, ?p2\<lparr>startTime := 0\<rparr>)"
    by (rule Stop_running [OF r2])
  note d = m(4) and keys = m(3)
  from pos count have "filter (\<lambda>e. eventKey e = ?K) evs \<noteq> []" by auto
  then obtain ev where ev: "ev \<in> set evs" "eventKey ev = ?K"
    by (auto simp: filter_empty_conv)
  have sz: "fst ev = 4096" using same ev by blast
  have loc: "Location ?b = []" using newProfileBuilder_tables by blast
  have b12: "nextPowerOfTwo 4096 = 12" by code_simp
  have lab: "(push_bit (unat (sizeBucketPower ?K)) 1 :: int64) = 4096"
    by (simp add: captureKey_def b12)
  from samples_of_key [OF order d keys pcs(2) ev(1) loc]
  have filt: "filter (\<lambda>s. sampleStack ?pr s = map Some (locations ?K) \<and>
                    Label s = [\<lparr>Key = 4, Num = 4096\<rparr>]) (Sample ?pr) = [?s]"
    unfolding ev(2) lab .
  have all4096: "\<forall>x \<in> set (filter (\<lambda>e. eventKey e = ?K) evs). fst x = 4096"
    using same by simp
  have v: "sampleAt m ?K = (of_nat N, 4096 * of_nat N)"
    using m(2) [of ?K] count sum_list_const_word [OF all4096]
    by (simp add: mult.commute)
  have val: "Value ?s = [of_nat N, 4096 * of_nat N]"
    by (simp add: emitSample_def v)
  have exact: "N < 2 ^ 51 \<longrightarrow> map sint (Value ?s) = [int N, 4096 * int N]"
  proof
    assume N: "N < 2 ^ 51"
    then have a: "N < 2 ^ 63" and b: "4096 * N < 2 ^ 63" by simp_all
    have c: "sint (of_nat N :: int64) = int N" by (rule sint_of_nat_64 [OF a])
    have "sint (of_nat (4096 * N) :: int64) = int (4096 * N)" by (rule sint_of_nat_64 [OF b])
    then have e: "sint (4096 * of_nat N :: int64) = 4096 * int N"
      by (simp only: of_nat_mult of_nat_numeral)
    show "map sint (Value ?s) = [int N, 4096 * int N]"
      unfolding val by (simp only: list.map c e)
  qed
  show ?thesis
    by (intro exI [of _ ?p1] exI [of _ ?p2] exI [of _ ?pr] exI [of _ ?s] conjI)
       (rule st m(1) stop filt val exact)+
qed

theorem aggregation_exact_witness:
  "\<exists>p1 p2 pr s.
     Start 17 NewProfiler = (None, p1) \<and>
     recordSamples [(4096, [5, 6]), (100, [5, 6]), (4096, [5, 6]), (4096, [7])] p1 = Inr p2 \<and>
     Stop 20 [] rev p2 = (Inr pr, p2\<lparr>startTime := 0\<rparr>) \<and>
     filter (\<lambda>s. sampleStack pr s = map Some (locations (captureKey 4096 [5, 6])) \<and>
                 Label s = [\<lparr>Key = 4, Num = 4096\<rparr>]) (Sample pr) = [s] \<and>
     Value s = [2, 8192] \<and> map sint (Value s) = [2, 8192]"
proof -
  let ?evs = "[(4096, [5, 6]), (100, [5, 6]), (4096, [5, 6]), (4096, [7])] ::
                (go_int \<times> uintptr list) list"
  have idle: "startTime NewProfiler = 0" by (simp add: NewProfiler_def)
  have clock: "(17 :: int64) \<noteq> 0" by simp
  have order: "\<And>m :: sampleMap. mset (rev m) = mset m" by simp
  have same: "\<forall>e \<in> set ?evs. eventKey e = captureKey 4096 [5, 6] \<longrightarrow> fst e = 4096"
    by code_simp
  have count: "length (filter (\<lambda>e. eventKey e = captureKey 4096 [5, 6]) ?evs) = 2"
    by code_simp
  have pos: "(0 :: nat) < 2" by simp
  have pcs: "(0 :: uintptr) \<notin> set [5, 6]" "\<forall>e \<in> set ?evs. 0 \<notin> set (snd e)"
    by simp_all
  from aggregation_exact [OF idle clock order same count pos pcs, of 20 "[]"]
  obtain p1 p2 pr s where
    r: "Start 17 NewProfiler = (None, p1)" "recordSamples ?evs p1 = Inr p2"
      "Stop 20 [] rev p2 = (Inr pr, p2\<lparr>startTime := 0\<rparr>)"
      "filter (\<lambda>s. sampleStack pr s = map Some (locations (captureKey 4096 [5, 6])) \<and>
                 Label s = [\<lparr>Key = 4, Num = 4096\<rparr>]) (Sample pr) = [s]"
      "Value s = [of_nat 2, 4096 * of_nat 2]"
      "(2 :: nat) < 2 ^ 51 \<longrightarrow> map sint (Value s) = [int 2, 4096 * int 2]"
    by (elim exE conjE) (rule that; assumption)
  have v: "Value s = [2, 8192]" using r(5) by simp
  have "(2 :: nat) < 2 ^ 51" by simp
  with r(6) have e: "map sint (Value s) = [2, 8192]" by simp
  show ?thesis
    by (intro exI [of _ p1] exI [of _ p2] exI [of _ pr] exI [of _ s] conjI)
       (rule r(1) r(2) r(3) r(4) v e)+
qed

section \<open>Sizes 100, 200 and 5000\<close>

lemma captureKey_same_stack:
  "captureKey s1 c = captureKey s2 c \<longleftrightarrow> nextPowerOfTwo s1 = nextPowerOfTwo s2"
  by (simp add: captureKey_def)

lemma bucket_values:
  "nextPowerOfTwo 100 = 7" "nextPowerOfTwo 200 = 8" "nextPowerOfTwo 5000 = 13"
  "nextPowerOfTwo 150 = 8"
  by code_simp+

text \<open>What \<open>Stop\<close> returns on a running profiler, sample by sample.\<close>

lemma Stop_samples:
  assumes "startTime p \<noteq> 0" and "samples p = Some m"
  obtains pr where "Stop now regions rangeOrder p = (Inr pr, p\<lparr>startTime := 0\<rparr>)"
    and "map (\<lambda>s. (Value s, Label s)) (Sample pr) =
           map (\<lambda>e. ([fst (snd e), snd (snd e)],
                       [\<lparr>Key = 4, Num = push_bit (unat (sizeBucketPower (fst e))) 1\<rparr>]))
             (rangeOrder m)"
    and "map (sampleStack pr) (Sample pr) = map (\<lambda>e. map Some (locations (fst e))) (rangeOrder m)"
proof -
  let ?b = "newProfileBuilder (startTime p) (now - startTime p) regions"
  let ?es = "rangeOrder m"
  let ?ix = "locIdx (buildLoop ?es ?b)"
  have loc: "Location ?b = []" using newProfileBuilder_tables by blast
  have S: "Sample (build ?es ?b) = map (emitSample ?ix) ?es"
    by (simp add: build_eq [of ?es ?b])
  show thesis
  proof (rule that [of "build ?es ?b"])
    show "Stop now regions rangeOrder p = (Inr (build ?es ?b), p\<lparr>startTime := 0\<rparr>)"
      by (rule Stop_running [OF assms])
    show "map (\<lambda>s. (Value s, Label s)) (Sample (build ?es ?b)) =
           map (\<lambda>e. ([fst (snd e), snd (snd e)],
                       [\<lparr>Key = 4, Num = push_bit (unat (sizeBucketPower (fst e))) 1\<rparr>])) ?es"
      unfolding S by (simp add: emitSample_def)
    show "map (sampleStack (build ?es ?b)) (Sample (build ?es ?b)) =
           map (\<lambda>e. map Some (locations (fst e))) ?es"
      unfolding S map_map
      by (rule map_cong [OF refl]) (simp only: o_def build_sampleStack [OF loc])
  qed
qed

text \<open>
  Claim C4, as the code has it. Sizes 100 and 200 fall in buckets 7 and 8 (128 and 256
  bytes), so two calls with these sizes and the same stack leave two samples, each with
  count 1, with byte sums 100 and 200; a call with size 5000 falls in bucket 13 and
  leaves a third sample. All three resolve to the same stack. Two calls with the same
  stack whose sizes share a bucket merge: sizes 150 and 200, both in bucket 8, leave one
  sample with count 2 and byte sum 350.
\<close>

theorem sizes_100_200_separate:
  assumes idle: "startTime p0 = 0" and clock: "now \<noteq> 0"
    and order: "\<And>m. mset (rangeOrder m) = mset m"
  shows "nextPowerOfTwo 100 = 7 \<and> nextPowerOfTwo 200 = 8 \<and> nextPowerOfTwo 5000 = 13 \<and>
         nextPowerOfTwo 150 = 8 \<and>
         (\<exists>p1 p2 pr. Start now p0 = (None, p1) \<and>
            recordSamples [(100, stk), (200, stk), (5000, stk)] p1 = Inr p2 \<and>
            Stop now' regions rangeOrder p2 = (Inr pr, p2\<lparr>startTime := 0\<rparr>) \<and>
            mset (map (\<lambda>s. (Value s, Label s)) (Sample pr)) =
              {#([1, 100], [\<lparr>Key = 4, Num = 128\<rparr>]), ([1, 200], [\<lparr>Key = 4, Num = 256\<rparr>]),
                ([1, 5000], [\<lparr>Key = 4, Num = 8192\<rparr>])#} \<and>
            set (map (sampleStack pr) (Sample pr)) = {map Some (locations (captureKey 100 stk))}) \<and>
         (\<exists>p1 p2 pr. Start now p0 = (None, p1) \<and>
            recordSamples [(150, stk), (200, stk)] p1 = Inr p2 \<and>
            Stop now' regions rangeOrder p2 = (Inr pr, p2\<lparr>startTime := 0\<rparr>) \<and>
            map (\<lambda>s. (Value s, Label s)) (Sample pr) = [([2, 350], [\<lparr>Key = 4, Num = 256\<rparr>])])"
proof -
  let ?p1 = "p0\<lparr>startTime := now, samples := Some []\<rparr>"
  let ?g = "\<lambda>e :: sampleKey \<times> int64 \<times> int64. ([fst (snd e), snd (snd e)],
                [\<lparr>Key = 4, Num = push_bit (unat (sizeBucketPower (fst e))) (1 :: int64)\<rparr>])"
  have st: "Start now p0 = (None, ?p1)" using idle by (simp add: Start_def)
  have run: "startTime ?p1 \<noteq> 0" using clock by simp
  have pw: "sizeBucketPower (captureKey s stk) = nextPowerOfTwo s" for s
    by (simp add: captureKey_def)
  txt \<open>three buckets\<close>
  let ?m3 = "[(captureKey 100 stk, 1, 100), (captureKey 200 stk, 1, 200),
              (captureKey 5000 stk, 1, 5000)] :: sampleMap"
  let ?q3 = "?p1\<lparr>samples := Some ?m3\<rparr>"
  have rec3: "recordSamples [(100, stk), (200, stk), (5000, stk)] ?p1 = Inr ?q3"
    using run
    by (simp add: recordSample_def sampleAt_def Let_def captureKey_same_stack bucket_values)
  have q3: "startTime ?q3 \<noteq> 0" "samples ?q3 = Some ?m3" using clock by simp_all
  from Stop_samples [OF q3, of now' regions rangeOrder] obtain pr3 where
    pr3: "Stop now' regions rangeOrder ?q3 = (Inr pr3, ?q3\<lparr>startTime := 0\<rparr>)"
      "map (\<lambda>s. (Value s, Label s)) (Sample pr3) = map ?g (rangeOrder ?m3)"
      "map (sampleStack pr3) (Sample pr3) =
         map (\<lambda>e. map Some (locations (fst e))) (rangeOrder ?m3)"
    by blast
  have "mset (map (\<lambda>s. (Value s, Label s)) (Sample pr3)) = image_mset ?g (mset (rangeOrder ?m3))"
    unfolding pr3(2) by simp
  also have "\<dots> = image_mset ?g (mset ?m3)" by (simp only: order)
  also have "\<dots> = {#([1, 100], [\<lparr>Key = 4, Num = 128\<rparr>]), ([1, 200], [\<lparr>Key = 4, Num = 256\<rparr>]),
                ([1, 5000], [\<lparr>Key = 4, Num = 8192\<rparr>])#}"
    by (simp add: pw bucket_values)
  finally have vals3: "mset (map (\<lambda>s. (Value s, Label s)) (Sample pr3)) =
      {#([1, 100], [\<lparr>Key = 4, Num = 128\<rparr>]), ([1, 200], [\<lparr>Key = 4, Num = 256\<rparr>]),
        ([1, 5000], [\<lparr>Key = 4, Num = 8192\<rparr>])#}" .
  have "set (rangeOrder ?m3) = set ?m3" by (rule mset_eq_setD) (rule order)
  then have "set (map (\<lambda>e. map Some (locations (fst e))) (rangeOrder ?m3)) =
      (\<lambda>e. map Some (locations (fst e))) ` set ?m3"
    by simp
  also have "\<dots> = {map Some (locations (captureKey 100 stk))}"
    by (simp add: captureKey_def)
  finally have stacks3: "set (map (sampleStack pr3) (Sample pr3)) =
      {map Some (locations (captureKey 100 stk))}"
    unfolding pr3(3) .
  have A: "\<exists>p1 p2 pr. Start now p0 = (None, p1) \<and>
            recordSamples [(100, stk), (200, stk), (5000, stk)] p1 = Inr p2 \<and>
            Stop now' regions rangeOrder p2 = (Inr pr, p2\<lparr>startTime := 0\<rparr>) \<and>
            mset (map (\<lambda>s. (Value s, Label s)) (Sample pr)) =
              {#([1, 100], [\<lparr>Key = 4, Num = 128\<rparr>]), ([1, 200], [\<lparr>Key = 4, Num = 256\<rparr>]),
                ([1, 5000], [\<lparr>Key = 4, Num = 8192\<rparr>])#} \<and>
            set (map (sampleStack pr) (Sample pr)) = {map Some (locations (captureKey 100 stk))}"
    by (intro exI [of _ ?p1] exI [of _ ?q3] exI [of _ pr3] conjI)
       (rule st rec3 pr3(1) vals3 stacks3)+
  txt \<open>one bucket\<close>
  let ?m1 = "[(captureKey 200 stk, 2, 350)] :: sampleMap"
  let ?q1 = "?p1\<lparr>samples := Some ?m1\<rparr>"
  have k: "captureKey 150 stk = captureKey 200 stk"
    by (simp add: captureKey_same_stack bucket_values)
  have rec1: "recordSamples [(150, stk), (200, stk)] ?p1 = Inr ?q1"
    using run
    by (simp add: recordSample_def sampleAt_def Let_def k)
  have q1: "startTime ?q1 \<noteq> 0" "samples ?q1 = Some ?m1" using clock by simp_all
  from Stop_samples [OF q1, of now' regions rangeOrder] obtain pr1 where
    pr1: "Stop now' regions rangeOrder ?q1 = (Inr pr1, ?q1\<lparr>startTime := 0\<rparr>)"
      "map (\<lambda>s. (Value s, Label s)) (Sample pr1) = map ?g (rangeOrder ?m1)"
    by blast
  have "mset (rangeOrder ?m1) = {#(captureKey 200 stk, 2, 350)#}" by (simp only: order) simp
  then have "rangeOrder ?m1 = ?m1" by (cases "rangeOrder ?m1") (auto split: if_splits)
  then have vals1: "map (\<lambda>s. (Value s, Label s)) (Sample pr1) =
      [([2, 350], [\<lparr>Key = 4, Num = 256\<rparr>])]"
    unfolding pr1(2) by (simp add: pw bucket_values)
  have B: "\<exists>p1 p2 pr. Start now p0 = (None, p1) \<and>
            recordSamples [(150, stk), (200, stk)] p1 = Inr p2 \<and>
            Stop now' regions rangeOrder p2 = (Inr pr, p2\<lparr>startTime := 0\<rparr>) \<and>
            map (\<lambda>s. (Value s, Label s)) (Sample pr) = [([2, 350], [\<lparr>Key = 4, Num = 256\<rparr>])]"
    by (intro exI [of _ ?p1] exI [of _ ?q1] exI [of _ pr1] conjI)
       (rule st rec1 pr1(1) vals1)+
  from bucket_values A B show ?thesis by (intro conjI)
qed

theorem sizes_100_200_separate_witness:
  "\<exists>p1 p2 pr. Start 17 NewProfiler = (None, p1) \<and>
     recordSamples [(100, [5, 6]), (200, [5, 6]), (5000, [5, 6])] p1 = Inr p2 \<and>
     Stop 20 [] rev p2 = (Inr pr, p2\<lparr>startTime := 0\<rparr>) \<and>
     mset (map (\<lambda>s. (Value s, Label s)) (Sample pr)) =
       {#([1, 100], [\<lparr>Key = 4, Num = 128\<rparr>]), ([1, 200], [\<lparr>Key = 4, Num = 256\<rparr>]),
         ([1, 5000], [\<lparr>Key = 4, Num = 8192\<rparr>])#} \<and>
     set (map (sampleStack pr) (Sample pr)) = {map Some (locations (captureKey 100 [5, 6]))}"
proof -
  have idle: "startTime NewProfiler = 0" by (simp add: NewProfiler_def)
  have clock: "(17 :: int64) \<noteq> 0" by simp
  have order: "\<And>m :: sampleMap. mset (rev m) = mset m" by simp
  from sizes_100_200_separate [OF idle clock order, of "[5, 6]" 20 "[]"]
  show ?thesis by (elim conjE)
qed

text \<open>
  Claim C4 as it is stated fails: size 100 is in bucket 7, not 8, and after calls with
  sizes 100 and 200 from the same stack the profile has two samples, with values
  [1, 100] and [1, 200], and none with count 2 and byte sum 300.
\<close>

theorem sizes_100_200_merge_counterexample:
  "nextPowerOfTwo 100 \<noteq> 8 \<and>
   recordSamples [(100, [5, 6]), (200, [5, 6])] (snd (Start 17 NewProfiler)) =
     Inr \<lparr>samples = Some [(captureKey 100 [5, 6], 1, 100), (captureKey 200 [5, 6], 1, 200)],
          startTime = 17\<rparr> \<and>
   map_sum id (\<lambda>pr. map Value (Sample pr))
     (fst (Stop 20 [] id
        \<lparr>samples = Some [(captureKey 100 [5, 6], 1, 100), (captureKey 200 [5, 6], 1, 200)],
         startTime = 17\<rparr>)) =
     Inr [[1, 100], [1, 200]]"
proof -
  have 1: "nextPowerOfTwo 100 \<noteq> 8" by code_simp
  have 2: "recordSamples [(100, [5, 6]), (200, [5, 6])] (snd (Start 17 NewProfiler)) =
     Inr \<lparr>samples = Some [(captureKey 100 [5, 6], 1, 100), (captureKey 200 [5, 6], 1, 200)],
          startTime = 17\<rparr>"
    by code_simp
  have 3: "map_sum id (\<lambda>pr. map Value (Sample pr))
     (fst (Stop 20 [] id
        \<lparr>samples = Some [(captureKey 100 [5, 6], 1, 100), (captureKey 200 [5, 6], 1, 200)],
         startTime = 17\<rparr>)) =
     Inr [[1, 100], [1, 200]]"
    by code_simp
  from 1 2 3 show ?thesis by (intro conjI)
qed

end
